theory Spec2Isabelle
  imports Complex_Main "HOL-Library.Word" "HOL-Library.Monad_Syntax"
begin

section \<open>IQmol basis-set container: \<^verbatim>\<open>src/Data/ShellList.C\<close>\<close>

text \<open>
  A shallow embedding of \<^verbatim>\<open>IQmol::Data::ShellList\<close>. The conventions:
  \<^item> \<^verbatim>\<open>unsigned\<close> is a 32-bit word: \<open>+\<close>, \<open>*\<close> wrap around, \<open>div\<close> and \<open><\<close> are unsigned;
  \<^item> \<^verbatim>\<open>double\<close> is read as \<open>real\<close>: the development is about which terms are read,
    written and accumulated, and in which order, not about rounding;
  \<^item> a \<^verbatim>\<open>QList\<close>, a \<^verbatim>\<open>Vector\<close> and a raw array are lists; an access outside the
    container (an assertion failure or undefined behaviour in C++) is the result \<open>None\<close>,
    so every function that indexes returns an \<open>option\<close>;
  \<^item> the object's members are the fields of the record \<open>ShellList\<close>, passed in and returned
    updated; what \<^verbatim>\<open>qDebug()\<close> and \<^verbatim>\<open>QLOG_WARN()\<close> print is returned as a list of
    diagnostics;
  \<^item> a \<^verbatim>\<open>for\<close> loop over an \<^verbatim>\<open>unsigned\<close> counter is \<open>for_loop\<close>, a loop over the shells
    (\<^verbatim>\<open>begin()\<close> to \<^verbatim>\<open>end()\<close>) is a recursion over the list.
\<close>

subsection \<open>Machine types and containers\<close>

type_synonym unsigned = "32 word"

type_synonym double = real

text \<open>\<^verbatim>\<open>qglviewer::Vec\<close>: three public members \<^verbatim>\<open>x\<close>, \<^verbatim>\<open>y\<close>, \<^verbatim>\<open>z\<close>.\<close>

datatype Vec = Vec (Vec_x: double) (Vec_y: double) (Vec_z: double)

text \<open>
  Indexing with an \<^verbatim>\<open>unsigned\<close> index: \<^verbatim>\<open>QList::at(i)\<close>, \<^verbatim>\<open>QList::operator[]\<close>,
  \<^verbatim>\<open>Vector::operator[]\<close> and a raw array read or write. Outside the container the result
  is \<open>None\<close>.
\<close>

definition get_at :: "'a list \<Rightarrow> unsigned \<Rightarrow> 'a option" where
  "get_at xs i = (if unat i < length xs then Some (xs ! unat i) else None)"

definition put_at :: "'a list \<Rightarrow> unsigned \<Rightarrow> 'a \<Rightarrow> 'a list option" where
  "put_at xs i v = (if unat i < length xs then Some (xs[unat i := v]) else None)"

text \<open>
  \<^verbatim>\<open>QList::size()\<close> is an \<^verbatim>\<open>int\<close>, converted to \<^verbatim>\<open>unsigned\<close> where the source stores or
  compares it so. A \<^verbatim>\<open>QList\<close> holds fewer than \<open>2 ^ 31\<close> elements.
\<close>

definition usize :: "'a list \<Rightarrow> unsigned" where
  "usize xs = of_nat (length xs)"

definition QList_ok :: "'a list \<Rightarrow> bool" where
  "QList_ok xs \<longleftrightarrow> length xs < 2 ^ 31"

text \<open>
  \<^verbatim>\<open>Vector::resize(n)\<close> (a \<^verbatim>\<open>boost::numeric::ublas::vector<double>\<close>): the elements
  that fit are kept. The new elements are indeterminate in C++; the model writes 0 there,
  and nothing below reads an element of a buffer before writing it.
\<close>

definition Vector_resize :: "double list \<Rightarrow> unsigned \<Rightarrow> double list" where
  "Vector_resize v n = take (unat n) v @ replicate (unat n - length v) 0"

text \<open>
  \<^verbatim>\<open>for (unsigned i = i0; i < n; ++i) body\<close>, threading the variables the body changes
  through as the state \<open>s\<close>; a body that fails ends the loop with \<open>None\<close>.
\<close>

function for_loop :: "unsigned \<Rightarrow> unsigned \<Rightarrow> (unsigned \<Rightarrow> 's \<Rightarrow> 's option) \<Rightarrow> 's \<Rightarrow> 's option" where
  "for_loop i n body s =
     (if i < n then (case body i s of None \<Rightarrow> None | Some s' \<Rightarrow> for_loop (i + 1) n body s')
      else Some s)"
  by pat_completeness auto

lemma unat_inc: "i < n \<Longrightarrow> unat (i + 1) = Suc (unat i)" for i n :: "'a::len word"
proof -
  assume "i < n"
  then have a: "unat i < unat n" by (simp add: word_less_nat_alt)
  have b: "unat n < 2 ^ LENGTH('a)" by (rule unsigned_less)
  from a b have "unat i + 1 < 2 ^ LENGTH('a)" by linarith
  then show ?thesis by (simp add: unat_word_ariths)
qed

termination for_loop
proof (relation "measure (\<lambda>(i, n, body, s). unat n - unat i)")
  fix i n :: unsigned
  assume "i < n"
  then have "unat i < unat n" "unat (i + 1) = Suc (unat i)"
    by (simp_all add: word_less_nat_alt unat_inc)
  then show "((i + 1, n, body, s'), (i, n, body, s)) \<in> measure (\<lambda>(i, n, body, s). unat n - unat i)"
    for body :: "unsigned \<Rightarrow> 's \<Rightarrow> 's option" and s s'
    by simp
qed simp

declare for_loop.simps [simp del]

subsection \<open>Shells\<close>

text \<open>\<^verbatim>\<open>Data::Shell::AngularMomentum\<close>, the kinds the constructor and \<^verbatim>\<open>dump()\<close> name.\<close>

datatype AngularMomentum = S | P | D5 | D6 | F7 | F10 | G9 | G15

text \<open>
  A shell is what the container passes to \<^verbatim>\<open>new Data::Shell(kind, atom, pos, expts, coefs)\<close>.
  The class itself (\<^verbatim>\<open>Shell.C\<close>) is outside this file; the container uses its
  \<^verbatim>\<open>angularMomentum()\<close>, \<^verbatim>\<open>atomIndex()\<close>, \<^verbatim>\<open>nBasis()\<close>, \<^verbatim>\<open>evaluate\<close> and \<^verbatim>\<open>boundingBox\<close>.
\<close>

datatype Shell = Shell (angularMomentum: AngularMomentum) (atomIndex: unsigned) (position: Vec)
  (exponentList: "double list") (coefficientList: "double list")

text \<open>
  Modelled from the spec: \<^verbatim>\<open>Shell::nBasis()\<close> is not in this file. The number of basis
  functions of a shell is fixed by its kind: 1, 3, 5, 6, 7, 10, 9, 15 for S, P, D5, D6, F7,
  F10, G9, G15 (the numbers \<^verbatim>\<open>ShellList::dump()\<close> adds up for its consistency check).
\<close>

fun kind_nBasis :: "AngularMomentum \<Rightarrow> unsigned" where
  "kind_nBasis S = 1"
| "kind_nBasis P = 3"
| "kind_nBasis D5 = 5"
| "kind_nBasis D6 = 6"
| "kind_nBasis F7 = 7"
| "kind_nBasis F10 = 10"
| "kind_nBasis G9 = 9"
| "kind_nBasis G15 = 15"

definition Shell_nBasis :: "Shell \<Rightarrow> unsigned" where
  "Shell_nBasis sh = kind_nBasis (angularMomentum sh)"

text \<open>
  \<^verbatim>\<open>Shell::evaluate(x, y, z)\<close> is a parameter of the model: \<open>None\<close> is the null pointer (the
  shell is not significant at the point), \<open>Some vs\<close> the array of the shell's values there.
  \<^verbatim>\<open>Shell::boundingBox(min, max, thresh)\<close> is a parameter too: the pair it writes to
  \<^verbatim>\<open>min\<close> and \<^verbatim>\<open>max\<close>.
\<close>

type_synonym evaluate = "Shell \<Rightarrow> double \<Rightarrow> double \<Rightarrow> double \<Rightarrow> double list option"

type_synonym shellBox = "Shell \<Rightarrow> double \<Rightarrow> Vec \<times> Vec"

subsection \<open>The container\<close>

text \<open>\<^verbatim>\<open>Matrix\<close> (a \<^verbatim>\<open>ublas::matrix<double>\<close>) as the list of its rows.\<close>

type_synonym Matrix = "double list list"

record ShellList =
  shells :: "Shell list"
  m_overlapMatrix :: "double list"
  m_nBasis :: unsigned
  m_basisValues :: "double list"
  m_sigBasis :: "unsigned list"
  m_basisPairValues :: "double list"
  m_densityVectors :: "double list list"
  m_densityValues :: "double list"
  m_orbitalIndices :: "int list"
  m_orbitalCoefficients :: "Matrix option"
  m_orbitalValues :: "double list"

text \<open>
  A container of the shells \<open>shs\<close> whose other members are as the constructor's initialisers
  and the default constructors leave them: empty lists and vectors, null pointers, and
  \<^verbatim>\<open>m_nBasis\<close> (not initialised in C++) written as 0.
\<close>

definition emptyBuffers :: "Shell list \<Rightarrow> ShellList" where
  "emptyBuffers shs =
     \<lparr>shells = shs, m_overlapMatrix = [], m_nBasis = 0, m_basisValues = [], m_sigBasis = [],
      m_basisPairValues = [], m_densityVectors = [], m_densityValues = [],
      m_orbitalIndices = [], m_orbitalCoefficients = None, m_orbitalValues = []\<rparr>"

datatype diagnostic =
    UnknownShellType unsigned int
  | RoundError
  | Offsets "unsigned list"

text \<open>\<^verbatim>\<open>ShellList::nBasis()\<close>: the sum, in \<^verbatim>\<open>unsigned\<close>, over the shells in order.\<close>

definition nBasis :: "ShellList \<Rightarrow> unsigned" where
  "nBasis sl = fold (\<lambda>sh n. n + Shell_nBasis sh) (shells sl) 0"

text \<open>\<^verbatim>\<open>ShellList::shellAtomOffsets()\<close> and \<^verbatim>\<open>ShellList::basisAtomOffsets()\<close>.\<close>

fun shellAtomOffsets_loop :: "Shell list \<Rightarrow> unsigned \<Rightarrow> unsigned \<Rightarrow> unsigned list \<Rightarrow> unsigned list" where
  "shellAtomOffsets_loop [] k atomIdx offsets = offsets"
| "shellAtomOffsets_loop (sh # rest) k atomIdx offsets =
     (if atomIndex sh \<noteq> atomIdx
      then shellAtomOffsets_loop rest (k + 1) (atomIdx + 1) (offsets @ [k])
      else shellAtomOffsets_loop rest (k + 1) atomIdx offsets)"

definition shellAtomOffsets :: "ShellList \<Rightarrow> unsigned list" where
  "shellAtomOffsets sl = shellAtomOffsets_loop (shells sl) 0 0 [0]"

fun basisAtomOffsets_loop :: "Shell list \<Rightarrow> unsigned \<Rightarrow> unsigned \<Rightarrow> unsigned list \<Rightarrow> unsigned list" where
  "basisAtomOffsets_loop [] k atomIdx offsets = offsets"
| "basisAtomOffsets_loop (sh # rest) k atomIdx offsets =
     (if atomIndex sh \<noteq> atomIdx
      then basisAtomOffsets_loop rest (k + Shell_nBasis sh) (atomIdx + 1) (offsets @ [k])
      else basisAtomOffsets_loop rest (k + Shell_nBasis sh) atomIdx offsets)"

definition basisAtomOffsets :: "ShellList \<Rightarrow> unsigned list" where
  "basisAtomOffsets sl = basisAtomOffsets_loop (shells sl) 0 0 [0]"

text \<open>
  \<^verbatim>\<open>ShellList::resize()\<close>. \<^verbatim>\<open>new unsigned[m_nBasis]\<close> is a fresh array of indeterminate
  content, written as zeros.
\<close>

definition resize :: "ShellList \<Rightarrow> ShellList \<times> diagnostic list" where
  "resize sl =
     (let n = nBasis sl;
          sz = n * (n + 1) div 2;
          roundError = (2 * sz \<noteq> n * (n + 1));
          sz' = (if roundError then sz + 1 else sz);
          sl' = sl\<lparr>m_nBasis := n,
                   m_basisValues := Vector_resize (m_basisValues sl) n,
                   m_sigBasis := replicate (unat n) 0,
                   m_basisPairValues := Vector_resize (m_basisPairValues sl) sz'\<rparr>
      in (sl', (if roundError then [RoundError] else [])
               @ [Offsets (shellAtomOffsets sl'), Offsets (basisAtomOffsets sl')]))"

text \<open>
  \<^verbatim>\<open>std::min(a, b)\<close> and \<^verbatim>\<open>std::max(a, b)\<close> as the standard library defines them.
\<close>

definition std_min :: "double \<Rightarrow> double \<Rightarrow> double" where
  "std_min a b = (if b < a then b else a)"

definition std_max :: "double \<Rightarrow> double \<Rightarrow> double" where
  "std_max a b = (if a < b then b else a)"

text \<open>
  \<^verbatim>\<open>ShellList::boundingBox(min, max, thresh)\<close>: the result is the pair of the values of
  \<^verbatim>\<open>min\<close> and \<^verbatim>\<open>max\<close> on return. Both are overwritten before they are read.
\<close>

fun boundingBox_loop :: "shellBox \<Rightarrow> double \<Rightarrow> Shell list \<Rightarrow> Vec \<times> Vec \<Rightarrow> Vec \<times> Vec" where
  "boundingBox_loop box thresh [] (mn, mx) = (mn, mx)"
| "boundingBox_loop box thresh (sh # rest) (mn, mx) =
     (let (tmin, tmax) = box sh thresh;
          mn' = Vec (std_min (Vec_x tmin) (Vec_x mn)) (std_min (Vec_y tmin) (Vec_y mn))
                    (std_min (Vec_z tmin) (Vec_z mn));
          mx' = Vec (std_max (Vec_x tmax) (Vec_x mx)) (std_max (Vec_y tmax) (Vec_y mx))
                    (std_max (Vec_z tmax) (Vec_z mx))
      in boundingBox_loop box thresh rest (mn', mx'))"

definition boundingBox :: "shellBox \<Rightarrow> ShellList \<Rightarrow> double \<Rightarrow> Vec \<times> Vec" where
  "boundingBox box sl thresh =
     (if shells sl = [] then (Vec 0 0 0, Vec 0 0 0)
      else boundingBox_loop box thresh (shells sl) (box (shells sl ! 0) thresh))"

text \<open>
  \<^verbatim>\<open>ShellList::shellValues(x, y, z)\<close>. The first argument of the loop is the shell's
  \<^verbatim>\<open>evaluate\<close> at the point; the state of the loop is \<^verbatim>\<open>offset\<close> and \<^verbatim>\<open>m_basisValues\<close>.
  The reference returned is to \<^verbatim>\<open>m_basisValues\<close> of the state returned.
\<close>

fun shellValues_loop ::
  "(Shell \<Rightarrow> double list option) \<Rightarrow> Shell list \<Rightarrow> unsigned \<times> double list
    \<Rightarrow> (unsigned \<times> double list) option" where
  "shellValues_loop ev [] st = Some st"
| "shellValues_loop ev (sh # rest) st =
     (case ev sh of
        Some vals \<Rightarrow>
          do {
            st' \<leftarrow> for_loop 0 (Shell_nBasis sh)
                     (\<lambda>s (offset, bv). do {
                        v \<leftarrow> get_at vals s;
                        bv' \<leftarrow> put_at bv offset v;
                        Some (offset + 1, bv')
                      }) st;
            shellValues_loop ev rest st'
          }
      | None \<Rightarrow>
          do {
            st' \<leftarrow> for_loop 0 (Shell_nBasis sh)
                     (\<lambda>s (offset, bv). do {
                        bv' \<leftarrow> put_at bv offset 0;
                        Some (offset + 1, bv')
                      }) st;
            shellValues_loop ev rest st'
          })"

definition shellValues :: "evaluate \<Rightarrow> ShellList \<Rightarrow> double \<Rightarrow> double \<Rightarrow> double \<Rightarrow> ShellList option" where
  "shellValues evaluate sl x y z =
     do {
       (offset, bv) \<leftarrow> shellValues_loop (\<lambda>sh. evaluate sh x y z) (shells sl) (0, m_basisValues sl);
       Some (sl\<lparr>m_basisValues := bv\<rparr>)
     }"

text \<open>\<^verbatim>\<open>ShellList::setDensityVectors\<close>: the output buffer is resized to the number of vectors.\<close>

definition setDensityVectors :: "ShellList \<Rightarrow> double list list \<Rightarrow> ShellList" where
  "setDensityVectors sl densityVectors =
     sl\<lparr>m_densityVectors := densityVectors,
        m_densityValues := Vector_resize (m_densityValues sl) (usize densityVectors)\<rparr>"

text \<open>
  \<^verbatim>\<open>ShellList::densityValues(x, y, z)\<close>. The first loop, over the shells, has the state
  \<^verbatim>\<open>nSigBas\<close>, \<^verbatim>\<open>basoff\<close>, \<^verbatim>\<open>m_basisValues\<close>, \<^verbatim>\<open>m_sigBasis\<close>.
\<close>

type_synonym sigState = "unsigned \<times> unsigned \<times> double list \<times> unsigned list"

fun densityValues_scan ::
  "(Shell \<Rightarrow> double list option) \<Rightarrow> Shell list \<Rightarrow> sigState \<Rightarrow> sigState option" where
  "densityValues_scan ev [] st = Some st"
| "densityValues_scan ev (sh # rest) (nSigBas, basoff, bv, sig) =
     (let numbas = Shell_nBasis sh in
      case ev sh of
        Some vals \<Rightarrow>
          do {
            st' \<leftarrow> for_loop 0 numbas
                     (\<lambda>i (nSigBas, basoff, bv, sig). do {
                        v \<leftarrow> get_at vals i;
                        bv' \<leftarrow> put_at bv nSigBas v;
                        sig' \<leftarrow> put_at sig nSigBas basoff;
                        Some (nSigBas + 1, basoff + 1, bv', sig')
                      }) (nSigBas, basoff, bv, sig);
            densityValues_scan ev rest st'
          }
      | None \<Rightarrow> densityValues_scan ev rest (nSigBas, basoff + numbas, bv, sig))"

text \<open>
  The loops over the density vectors: \<^verbatim>\<open>m_densityValues[k] += c * (*m_densityVectors[k])[idx]\<close>
  for every \<^verbatim>\<open>k\<close> below \<^verbatim>\<open>nden\<close>.
\<close>

definition densityValues_add ::
  "double list list \<Rightarrow> unsigned \<Rightarrow> double \<Rightarrow> unsigned \<Rightarrow> double list \<Rightarrow> double list option" where
  "densityValues_add densityVectors nden c idx dv =
     for_loop 0 nden
       (\<lambda>k dv. do {
          D \<leftarrow> get_at densityVectors k;
          d \<leftarrow> get_at D idx;
          cur \<leftarrow> get_at dv k;
          put_at dv k (cur + c * d)
        }) dv"

definition densityValues :: "evaluate \<Rightarrow> ShellList \<Rightarrow> double \<Rightarrow> double \<Rightarrow> double \<Rightarrow> ShellList option" where
  "densityValues evaluate sl x y z =
     do {
       (nSigBas, basoff, bv, sig) \<leftarrow>
         densityValues_scan (\<lambda>sh. evaluate sh x y z) (shells sl)
           (0, 0, m_basisValues sl, m_sigBasis sl);
       let nden = usize (m_densityVectors sl);
       dv0 \<leftarrow> for_loop 0 nden (\<lambda>k dv. put_at dv k 0) (m_densityValues sl);
       dv \<leftarrow> for_loop 0 nSigBas
               (\<lambda>i dv. do {
                  xi \<leftarrow> get_at bv i;
                  ii \<leftarrow> get_at sig i;
                  let Ti = (ii * (ii + 1)) div 2;
                  dv1 \<leftarrow> for_loop 0 i
                           (\<lambda>j dv. do {
                              bj \<leftarrow> get_at bv j;
                              let xij = 2 * xi * bj;
                              jj \<leftarrow> get_at sig j;
                              densityValues_add (m_densityVectors sl) nden (2 * xij) (Ti + jj) dv
                            }) dv;
                  densityValues_add (m_densityVectors sl) nden (xi * xi) (Ti + ii) dv1
                }) dv0;
       Some (sl\<lparr>m_basisValues := bv, m_sigBasis := sig, m_densityValues := dv\<rparr>)
     }"

text \<open>
  \<^verbatim>\<open>ShellList::setOrbitalVectors\<close> and \<^verbatim>\<open>ShellList::orbitalValues(x, y, z)\<close>. A \<^verbatim>\<open>Matrix\<close>
  element \<^verbatim>\<open>M(i, j)\<close> is read with the \<^verbatim>\<open>int\<close> row index of \<^verbatim>\<open>m_orbitalIndices\<close> and an
  \<^verbatim>\<open>unsigned\<close> column index; \<^verbatim>\<open>m_orbitalCoefficients\<close> is a null pointer until it is set.
\<close>

definition Matrix_get :: "Matrix \<Rightarrow> int \<Rightarrow> unsigned \<Rightarrow> double option" where
  "Matrix_get M i j =
     (if 0 \<le> i \<and> nat i < length M \<and> unat j < length (M ! nat i)
      then Some (M ! nat i ! unat j) else None)"

definition setOrbitalVectors :: "ShellList \<Rightarrow> Matrix \<Rightarrow> int list \<Rightarrow> ShellList" where
  "setOrbitalVectors sl coefficients indices =
     sl\<lparr>m_orbitalIndices := indices,
        m_orbitalCoefficients := Some coefficients,
        m_orbitalValues := Vector_resize (m_orbitalValues sl) (usize indices)\<rparr>"

fun orbitalValues_loop ::
  "(Shell \<Rightarrow> double list option) \<Rightarrow> Matrix option \<Rightarrow> int list \<Rightarrow> unsigned \<Rightarrow> Shell list
    \<Rightarrow> unsigned \<times> double list \<Rightarrow> (unsigned \<times> double list) option" where
  "orbitalValues_loop ev coefficients indices norb [] st = Some st"
| "orbitalValues_loop ev coefficients indices norb (sh # rest) (basoff, ov) =
     (let numbas = Shell_nBasis sh in
      case ev sh of
        Some vals \<Rightarrow>
          do {
            ov' \<leftarrow> for_loop 0 numbas
                     (\<lambda>i ov. for_loop 0 norb
                        (\<lambda>k ov. do {
                           M \<leftarrow> coefficients;
                           idx \<leftarrow> get_at indices k;
                           c \<leftarrow> Matrix_get M idx (basoff + i);
                           v \<leftarrow> get_at vals i;
                           cur \<leftarrow> get_at ov k;
                           put_at ov k (cur + c * v)
                         }) ov) ov;
            orbitalValues_loop ev coefficients indices norb rest (basoff + numbas, ov')
          }
      | None \<Rightarrow> orbitalValues_loop ev coefficients indices norb rest (basoff + numbas, ov))"

definition orbitalValues :: "evaluate \<Rightarrow> ShellList \<Rightarrow> double \<Rightarrow> double \<Rightarrow> double \<Rightarrow> ShellList option" where
  "orbitalValues evaluate sl x y z =
     do {
       let norb = usize (m_orbitalIndices sl);
       ov0 \<leftarrow> for_loop 0 norb (\<lambda>k ov. put_at ov k 0) (m_orbitalValues sl);
       (basoff, ov) \<leftarrow>
         orbitalValues_loop (\<lambda>sh. evaluate sh x y z) (m_orbitalCoefficients sl)
           (m_orbitalIndices sl) norb (shells sl) (0, ov0);
       Some (sl\<lparr>m_orbitalValues := ov\<rparr>)
     }"

subsection \<open>Construction\<close>

text \<open>
  \<^verbatim>\<open>ShellData\<close>, the raw record the constructor reads: a type code, a 1-based atom index and a
  number of primitives per shell, and the exponents and contraction coefficients of all
  primitives in the order of the shells.
\<close>

record ShellData =
  shellTypes :: "int list"
  shellToAtom :: "unsigned list"
  shellPrimitives :: "unsigned list"
  exponents :: "double list"
  contractionCoefficients :: "double list"
  contractionCoefficientsSP :: "double list"
  overlapMatrix :: "double list"

text \<open>
  \<^verbatim>\<open>Geometry::position(atom)\<close> is a parameter of the model, and so is the constant
  \<^verbatim>\<open>Constants::BohrToAngstrom\<close>; \<^verbatim>\<open>convExponents\<close> is \<^verbatim>\<open>std::pow(BohrToAngstrom, -2.0)\<close>.
\<close>

type_synonym Geometry = "unsigned \<Rightarrow> Vec"

definition convExponents :: "double \<Rightarrow> double" where
  "convExponents BohrToAngstrom = BohrToAngstrom powr (- 2)"

text \<open>
  The loop over the primitives of one shell; its state is \<^verbatim>\<open>cnt\<close>, \<^verbatim>\<open>expts\<close>, \<^verbatim>\<open>coefs\<close> and
  \<^verbatim>\<open>coefsSP\<close>.
\<close>

type_synonym primState = "unsigned \<times> double list \<times> double list \<times> double list"

definition primitives_body :: "ShellData \<Rightarrow> double \<Rightarrow> unsigned \<Rightarrow> primState \<Rightarrow> primState option" where
  "primitives_body shellData conv i st =
     (case st of (cnt, expts, coefs, coefsSP) \<Rightarrow>
        do {
          e \<leftarrow> get_at (exponents shellData) cnt;
          c \<leftarrow> get_at (contractionCoefficients shellData) cnt;
          coefsSP' \<leftarrow> (if contractionCoefficientsSP shellData \<noteq> []
                        then do {
                          sp \<leftarrow> get_at (contractionCoefficientsSP shellData) cnt;
                          Some (coefsSP @ [sp])
                        }
                        else Some coefsSP);
          Some (cnt + 1, expts @ [e * conv], coefs @ [c], coefsSP')
        })"

text \<open>
  The \<^verbatim>\<open>switch\<close> on the type code: the shells appended and the message printed, for the
  shell at position \<open>shell\<close>.
\<close>

definition shellsOfType ::
  "unsigned \<Rightarrow> int \<Rightarrow> unsigned \<Rightarrow> Vec \<Rightarrow> double list \<Rightarrow> double list \<Rightarrow> double list
    \<Rightarrow> Shell list \<times> diagnostic list" where
  "shellsOfType shell t atom pos expts coefs coefsSP =
     (if t = 0 then ([Shell S atom pos expts coefs], [])
      else if t = - 1 then ([Shell S atom pos expts coefs, Shell P atom pos expts coefsSP], [])
      else if t = 1 then ([Shell P atom pos expts coefs], [])
      else if t = - 2 then ([Shell D5 atom pos expts coefs], [])
      else if t = 2 then ([Shell D6 atom pos expts coefs], [])
      else if t = - 3 then ([Shell F7 atom pos expts coefs], [])
      else if t = 3 then ([Shell F10 atom pos expts coefs], [])
      else if t = - 4 then ([Shell G9 atom pos expts coefs], [])
      else if t = 4 then ([Shell G15 atom pos expts coefs], [])
      else ([], [UnknownShellType shell t]))"

text \<open>
  The loop over the raw shells; its state is \<^verbatim>\<open>cnt\<close>, the shells appended so far and the
  messages printed so far.
\<close>

type_synonym ctorState = "unsigned \<times> Shell list \<times> diagnostic list"

definition ShellList_body ::
  "ShellData \<Rightarrow> Geometry \<Rightarrow> double \<Rightarrow> unsigned \<Rightarrow> ctorState \<Rightarrow> ctorState option" where
  "ShellList_body shellData geometry conv shell st =
     (case st of (cnt, shs, out) \<Rightarrow>
        do {
          a \<leftarrow> get_at (shellToAtom shellData) shell;
          let atom = a - 1;
          let pos = geometry atom;
          np \<leftarrow> get_at (shellPrimitives shellData) shell;
          (cnt', expts, coefs, coefsSP) \<leftarrow>
            for_loop 0 np (primitives_body shellData conv) (cnt, [], [], []);
          t \<leftarrow> get_at (shellTypes shellData) shell;
          let (new, msg) = shellsOfType shell t atom pos expts coefs coefsSP;
          Some (cnt', shs @ new, out @ msg)
        })"

text \<open>
  Modelled from the spec: \<^verbatim>\<open>setOverlapMatrix\<close> is not in this file. An overlap matrix of
  the right size is retained.
\<close>

definition setOverlapMatrix :: "ShellList \<Rightarrow> double list \<Rightarrow> ShellList" where
  "setOverlapMatrix sl overlap = sl\<lparr>m_overlapMatrix := overlap\<rparr>"

text \<open>
  The constructor \<^verbatim>\<open>ShellList::ShellList(shellData, geometry)\<close>: the container and what
  was printed, or \<open>None\<close> when it reads outside one of the lists of the record.
\<close>

definition ShellList_ctor ::
  "ShellData \<Rightarrow> Geometry \<Rightarrow> double \<Rightarrow> (ShellList \<times> diagnostic list) option" where
  "ShellList_ctor shellData geometry BohrToAngstrom =
     do {
       let nShells = usize (shellTypes shellData);
       (cnt, shs, out) \<leftarrow>
         for_loop 0 nShells (ShellList_body shellData geometry (convExponents BohrToAngstrom))
           (0, [], []);
       let sl = emptyBuffers shs;
       let n = nBasis sl;
       let sl' = (if usize (overlapMatrix shellData) = (n + 1) * n div 2
                  then setOverlapMatrix sl (overlapMatrix shellData) else sl);
       let (sl'', out') = resize sl';
       Some (sl'', out @ out')
     }"

subsection \<open>Reference definitions for the atom offsets\<close>

text \<open>
  The positions at which the atom index of a shell differs from the atom index seen before
  it (\<open>prev\<close>, 0 before the first shell); \<open>k\<close> is the position of the first shell of the
  list.
\<close>

fun boundaries :: "unsigned \<Rightarrow> unsigned \<Rightarrow> Shell list \<Rightarrow> unsigned list" where
  "boundaries prev k [] = []"
| "boundaries prev k (sh # rest) =
     (if atomIndex sh \<noteq> prev then [k] else []) @ boundaries (atomIndex sh) (k + 1) rest"

text \<open>
  Shells grouped by increasing atom index: the first shell is on atom 0 and every later
  shell is on the atom of the shell before it or on the next atom (\<open>grouped_from a\<close>: the
  same, after a shell on atom \<open>a\<close>).
\<close>

fun grouped_from :: "unsigned \<Rightarrow> Shell list \<Rightarrow> bool" where
  "grouped_from a [] = True"
| "grouped_from a (sh # rest) =
     ((atomIndex sh = a \<or> atomIndex sh = a + 1) \<and> grouped_from (atomIndex sh) rest)"

definition startsOnAtom0 :: "Shell list \<Rightarrow> bool" where
  "startsOnAtom0 shs = (case shs of [] \<Rightarrow> True | sh # rest \<Rightarrow> atomIndex sh = 0)"

definition atomGrouped :: "Shell list \<Rightarrow> bool" where
  "atomGrouped shs \<longleftrightarrow> startsOnAtom0 shs \<and> grouped_from 0 shs"

subsection \<open>Reference definitions for the evaluation\<close>

text \<open>
  The number of basis functions of a list of shells as a natural number, the values a
  shell contributes to the full vector of basis values (zeros where it is not
  significant), and that vector.
\<close>

definition basisCount :: "Shell list \<Rightarrow> nat" where
  "basisCount shs = sum_list (map (\<lambda>sh. unat (Shell_nBasis sh)) shs)"

definition shellSlice :: "(Shell \<Rightarrow> double list option) \<Rightarrow> Shell \<Rightarrow> double list" where
  "shellSlice ev sh = (case ev sh of Some vs \<Rightarrow> vs | None \<Rightarrow> replicate (unat (Shell_nBasis sh)) 0)"

definition basisVector :: "(Shell \<Rightarrow> double list option) \<Rightarrow> Shell list \<Rightarrow> double list" where
  "basisVector ev shs = concat (map (shellSlice ev) shs)"

text \<open>
  What the container relies on: \<^verbatim>\<open>evaluate\<close> returns null or an array of as many values as
  the shell has basis functions; and \<^verbatim>\<open>resize()\<close> has sized the buffers for a number of
  basis functions that an \<^verbatim>\<open>unsigned\<close> holds.
\<close>

definition evaluate_ok :: "(Shell \<Rightarrow> double list option) \<Rightarrow> Shell list \<Rightarrow> bool" where
  "evaluate_ok ev shs =
     list_all (\<lambda>sh. case ev sh of None \<Rightarrow> True | Some vs \<Rightarrow> length vs = unat (Shell_nBasis sh)) shs"

definition resized :: "ShellList \<Rightarrow> bool" where
  "resized sl \<longleftrightarrow> basisCount (shells sl) < 2 ^ 32
     \<and> length (m_basisValues sl) = unat (nBasis sl)
     \<and> length (m_sigBasis sl) = unat (nBasis sl)"

subsection \<open>Reference definitions for the density\<close>

text \<open>
  The significant entries at a point: for every shell whose \<^verbatim>\<open>evaluate\<close> is not null, in
  order, each of its values with its global basis index. A shell that evaluates to null
  has no entry, and advances the global index by its number of basis functions all the
  same. \<open>off\<close> is the global index of the first basis function of the first shell.
\<close>

fun sigEntries ::
  "(Shell \<Rightarrow> double list option) \<Rightarrow> unsigned \<Rightarrow> Shell list \<Rightarrow> (double \<times> unsigned) list" where
  "sigEntries ev off [] = []"
| "sigEntries ev off (sh # rest) =
     (case ev sh of
        Some vals \<Rightarrow> zip vals (map (\<lambda>i. off + of_nat i) [0..<unat (Shell_nBasis sh)])
      | None \<Rightarrow> [])
     @ sigEntries ev (off + Shell_nBasis sh) rest"

text \<open>
  The number of elements of a packed triangle of \<open>n\<close> rows, which is also the offset at
  which row \<open>n\<close> starts.
\<close>

definition triangle :: "nat \<Rightarrow> nat" where
  "triangle n = n * (n + 1) div 2"

text \<open>
  The quadratic form over the significant entries \<open>E\<close> for one packed density matrix \<open>D\<close>:
  the row of the global index \<open>ii\<close> starts at the offset \<open>ii * (ii + 1) / 2\<close> of the packed
  triangle, a natural number.
\<close>

definition densityForm :: "(double \<times> unsigned) list \<Rightarrow> double list \<Rightarrow> double" where
  "densityForm E D =
     (\<Sum>i\<leftarrow>[0..<length E].
        (\<Sum>j\<leftarrow>[0..<i]. 2 * (2 * fst (E ! i) * fst (E ! j))
                          * D ! (triangle (unat (snd (E ! i))) + unat (snd (E ! j))))
        + fst (E ! i) * fst (E ! i) * D ! (triangle (unat (snd (E ! i))) + unat (snd (E ! i))))"

text \<open>
  The offset \<^verbatim>\<open>Ti = (ii*(ii+1))/2\<close> as \<^verbatim>\<open>densityValues\<close> computes it, in \<^verbatim>\<open>unsigned\<close>
  arithmetic, and the sum its loops accumulate for one density matrix: the terms of the
  quadratic form, read at the offsets computed in \<^verbatim>\<open>unsigned\<close>.
\<close>

definition rowOffset :: "unsigned \<Rightarrow> unsigned" where
  "rowOffset ii = ii * (ii + 1) div 2"

definition densityValues_sum :: "(double \<times> unsigned) list \<Rightarrow> double list \<Rightarrow> double" where
  "densityValues_sum E D =
     (\<Sum>i\<leftarrow>[0..<length E].
        (\<Sum>j\<leftarrow>[0..<i]. 2 * (2 * fst (E ! i) * fst (E ! j))
                          * D ! unat (rowOffset (snd (E ! i)) + snd (E ! j)))
        + fst (E ! i) * fst (E ! i) * D ! unat (rowOffset (snd (E ! i)) + snd (E ! i)))"

text \<open>
  The density vectors bound by \<^verbatim>\<open>setDensityVectors\<close>: the output buffer has one element
  per vector, and every vector holds a packed triangle of \<open>nBasis\<close> rows.
\<close>

definition densities_ok :: "ShellList \<Rightarrow> bool" where
  "densities_ok sl \<longleftrightarrow> QList_ok (m_densityVectors sl)
     \<and> length (m_densityValues sl) = length (m_densityVectors sl)
     \<and> list_all (\<lambda>D. triangle (unat (nBasis sl)) \<le> length D) (m_densityVectors sl)"

subsection \<open>Reference definitions for the orbitals\<close>

text \<open>
  The amplitude of the orbital of row \<open>idx\<close> of the coefficient matrix over the significant
  entries: the sum of coefficient times value.
\<close>

definition orbitalForm :: "Matrix \<Rightarrow> int \<Rightarrow> (double \<times> unsigned) list \<Rightarrow> double" where
  "orbitalForm M idx E = (\<Sum>(v, g)\<leftarrow>E. M ! nat idx ! unat g * v)"

text \<open>
  The orbitals bound by \<^verbatim>\<open>setOrbitalVectors\<close>: the output buffer has one element per
  requested orbital, and every requested row is a row of the matrix with a column for
  every basis function.
\<close>

definition orbitals_ok :: "ShellList \<Rightarrow> Matrix \<Rightarrow> bool" where
  "orbitals_ok sl M \<longleftrightarrow> m_orbitalCoefficients sl = Some M
     \<and> QList_ok (m_orbitalIndices sl)
     \<and> length (m_orbitalValues sl) = length (m_orbitalIndices sl)
     \<and> list_all (\<lambda>idx. 0 \<le> idx \<and> nat idx < length M \<and> unat (nBasis sl) \<le> length (M ! nat idx))
          (m_orbitalIndices sl)"

text \<open>
  The coefficient matrix is the identity on the requested rows: row \<open>idx\<close> is a row of
  basis function \<open>idx\<close>, with 1 in column \<open>idx\<close> and 0 in every other column.
\<close>

definition identity_rows :: "Matrix \<Rightarrow> int list \<Rightarrow> nat \<Rightarrow> bool" where
  "identity_rows M indices n \<longleftrightarrow>
     list_all (\<lambda>idx. nat idx < n
        \<and> list_all (\<lambda>j. M ! nat idx ! j = (if j = nat idx then 1 else 0)) [0..<n]) indices"

subsection \<open>Reference definitions for the construction\<close>

text \<open>
  The primitives of the raw shell at position \<open>k\<close> start after the primitives of the
  shells before it. The shells the entry stands for are built from its slice of the
  exponents (converted) and of the coefficients, its atom (0-based) and the position of
  that atom.
\<close>

definition primOffset :: "ShellData \<Rightarrow> nat \<Rightarrow> nat" where
  "primOffset sd k = sum_list (map unat (take k (shellPrimitives sd)))"

definition primSlice :: "ShellData \<Rightarrow> nat \<Rightarrow> double list \<Rightarrow> double list" where
  "primSlice sd k xs = take (unat (shellPrimitives sd ! k)) (drop (primOffset sd k) xs)"

definition entryAtom :: "ShellData \<Rightarrow> nat \<Rightarrow> unsigned" where
  "entryAtom sd k = shellToAtom sd ! k - 1"

definition entryExpts :: "ShellData \<Rightarrow> double \<Rightarrow> nat \<Rightarrow> double list" where
  "entryExpts sd conv k = map (\<lambda>e. e * conv) (primSlice sd k (exponents sd))"

definition entryCoefs :: "ShellData \<Rightarrow> nat \<Rightarrow> double list" where
  "entryCoefs sd k = primSlice sd k (contractionCoefficients sd)"

definition entryCoefsSP :: "ShellData \<Rightarrow> nat \<Rightarrow> double list" where
  "entryCoefsSP sd k =
     (if contractionCoefficientsSP sd = [] then [] else primSlice sd k (contractionCoefficientsSP sd))"

definition entryShells :: "ShellData \<Rightarrow> Geometry \<Rightarrow> double \<Rightarrow> nat \<Rightarrow> Shell list" where
  "entryShells sd geometry conv k =
     fst (shellsOfType (of_nat k) (shellTypes sd ! k) (entryAtom sd k) (geometry (entryAtom sd k))
            (entryExpts sd conv k) (entryCoefs sd k) (entryCoefsSP sd k))"

definition entryMessages :: "ShellData \<Rightarrow> nat \<Rightarrow> diagnostic list" where
  "entryMessages sd k =
     (if shellTypes sd ! k \<in> {- 4..4} then [] else [UnknownShellType (of_nat k) (shellTypes sd ! k)])"

text \<open>The kind of the one shell a type code other than \<open>-1\<close> stands for.\<close>

definition kindOfCode :: "int \<Rightarrow> AngularMomentum option" where
  "kindOfCode t =
     (if t = 0 then Some S else if t = 1 then Some P
      else if t = - 2 then Some D5 else if t = 2 then Some D6
      else if t = - 3 then Some F7 else if t = 3 then Some F10
      else if t = - 4 then Some G9 else if t = 4 then Some G15
      else None)"

text \<open>
  A record the constructor reads within its lists: an atom and a number of primitives for
  every type code, and exponents and coefficients for all the primitives; the second set
  of coefficients is empty or has one for every primitive.
\<close>

definition ShellData_ok :: "ShellData \<Rightarrow> bool" where
  "ShellData_ok sd \<longleftrightarrow>
     QList_ok (shellTypes sd) \<and> QList_ok (exponents sd)
     \<and> length (shellTypes sd) \<le> length (shellToAtom sd)
     \<and> length (shellTypes sd) \<le> length (shellPrimitives sd)
     \<and> primOffset sd (length (shellTypes sd)) \<le> length (exponents sd)
     \<and> primOffset sd (length (shellTypes sd)) \<le> length (contractionCoefficients sd)
     \<and> (contractionCoefficientsSP sd = []
         \<or> primOffset sd (length (shellTypes sd)) \<le> length (contractionCoefficientsSP sd))"

subsection \<open>Concrete inputs\<close>

text \<open>Shells of a given kind on a given atom, and containers of them.\<close>

definition shellOn :: "AngularMomentum \<Rightarrow> unsigned \<Rightarrow> Shell" where
  "shellOn kind atom = Shell kind atom (Vec 0 0 0) [1] [1]"

text \<open>A container of three shells on two atoms with its buffers sized, and an \<^verbatim>\<open>evaluate\<close>.\<close>

definition exampleEvaluate :: evaluate where
  "exampleEvaluate sh x y z =
     (if 10 < x then None
      else if angularMomentum sh = P \<and> x < 0 then None
      else Some (case angularMomentum sh of
                   S \<Rightarrow> [x + 2]
                 | P \<Rightarrow> [x, y, z]
                 | kind \<Rightarrow> replicate (unat (kind_nBasis kind)) x))"

definition exampleList :: ShellList where
  "exampleList = fst (resize (emptyBuffers [shellOn S 0, shellOn P 0, shellOn D5 1]))"

text \<open>
  A container of three shells (five basis functions) bound to one packed density matrix,
  and a container of a single basis function bound to the matrix \<open>[1]\<close>.
\<close>

definition densityExample :: ShellList where
  "densityExample =
     setDensityVectors (fst (resize (emptyBuffers [shellOn S 0, shellOn P 0, shellOn S 1])))
       [[1, 2, 3, 4, 5, 6, 7, 8, 9, 10, 11, 12, 13, 14, 15]]"

definition unitExample :: ShellList where
  "unitExample = setDensityVectors (fst (resize (emptyBuffers [shellOn S 0]))) [[1]]"

text \<open>
  The container of three shells bound to the \<open>5 \<times> 5\<close> identity matrix and the orbitals 3, 1
  and 0, and bound to a matrix of two rows and the orbitals 0 and 1.
\<close>

definition identityExample :: ShellList where
  "identityExample =
     setOrbitalVectors (fst (resize (emptyBuffers [shellOn S 0, shellOn P 0, shellOn S 1])))
       [[1, 0, 0, 0, 0], [0, 1, 0, 0, 0], [0, 0, 1, 0, 0], [0, 0, 0, 1, 0], [0, 0, 0, 0, 1]]
       [3, 1, 0]"

definition orbitalExample :: ShellList where
  "orbitalExample =
     setOrbitalVectors (fst (resize (emptyBuffers [shellOn S 0, shellOn P 0, shellOn S 1])))
       [[1, 2, 3, 4, 5], [0, 1, 0, 1, 0]] [0, 1]"

text \<open>
  A raw record of four shells on two atoms, the third of an unknown type, with an overlap
  matrix of the size of the packed triangle of its eight basis functions.
\<close>

definition exampleData :: ShellData where
  "exampleData =
     \<lparr>shellTypes = [0, - 1, 5, 1], shellToAtom = [1, 1, 2, 2], shellPrimitives = [2, 1, 1, 1],
      exponents = [1, 2, 3, 4, 5], contractionCoefficients = [10, 20, 30, 40, 50],
      contractionCoefficientsSP = [11, 21, 31, 41, 51], overlapMatrix = replicate 36 1\<rparr>"

definition exampleGeometry :: Geometry where
  "exampleGeometry atom = Vec (real (unat atom)) 0 0"

text \<open>A \<^verbatim>\<open>Shell::boundingBox\<close>: a cube of half width \<open>thresh\<close> around the atom at \<open>(atom, 0, 0)\<close>.\<close>

definition exampleBox :: shellBox where
  "exampleBox sh thresh =
     (Vec (real (unat (atomIndex sh)) - thresh) (- thresh) (- thresh),
      Vec (real (unat (atomIndex sh)) + thresh) thresh thresh)"

text \<open>
  A container of 65537 basis functions: 4369 G15 shells and an S shell on atom 0, and an
  S shell on atom 1, whose basis function has the global index 65536. An \<^verbatim>\<open>evaluate\<close> that
  is significant on atom 1 only, where every value is 1. A packed density matrix of
  65537 rows (2147581953 elements) that is 1 at the offset 98304 and 0 elsewhere; the
  element of row 65536 and column 65536 is at the offset 2147581952.
\<close>

definition overflowShells :: "Shell list" where
  "overflowShells = replicate 4369 (shellOn G15 0) @ [shellOn S 0, shellOn S 1]"

definition overflowEvaluate :: evaluate where
  "overflowEvaluate sh x y z =
     (if atomIndex sh = 1 then Some (replicate (unat (Shell_nBasis sh)) 1) else None)"

definition overflowDensity :: "double list" where
  "overflowDensity = replicate 98304 0 @ [1] @ replicate 2147483648 0"

definition overflowExample :: ShellList where
  "overflowExample = setDensityVectors (fst (resize (emptyBuffers overflowShells))) [overflowDensity]"

text \<open>
  A raw record of 4370 G15 shells of one primitive each on one atom (65550 basis
  functions), with an overlap matrix of 950377 elements.
\<close>

definition largeData :: ShellData where
  "largeData =
     \<lparr>shellTypes = replicate 4370 4, shellToAtom = replicate 4370 1,
      shellPrimitives = replicate 4370 1, exponents = replicate 4370 1,
      contractionCoefficients = replicate 4370 1, contractionCoefficientsSP = [],
      overlapMatrix = replicate 950377 1\<rparr>"

section \<open>Properties\<close>

subsection \<open>Buffer sizing\<close>

lemma triangular_twice: "2 * (n * (n + 1) div 2) = n * (n + 1)" for n :: "'a::len word"
proof -
  define x where "x = n * (n + 1)"
  have "even x" by (simp add: x_def)
  then have "x mod 2 = 0" by (simp add: even_iff_mod_2_eq_zero)
  moreover have "x div 2 * 2 + x mod 2 = x" by (rule div_mult_mod_eq)
  ultimately have "2 * (x div 2) = x" by (simp add: mult.commute)
  then show ?thesis unfolding x_def .
qed

lemma length_Vector_resize: "length (Vector_resize v n) = unat n"
  by (simp add: Vector_resize_def)

text \<open>
  C4. In \<^verbatim>\<open>resize()\<close> the size \<open>nBasis * (nBasis + 1) / 2\<close>, computed in \<^verbatim>\<open>unsigned\<close>
  arithmetic, doubled is \<open>nBasis * (nBasis + 1)\<close> again for every basis count, also when
  the product wraps around: the product of two consecutive numbers is even and reduction
  modulo a power of two keeps the parity. So the branch that warns of a round error and
  increments the size is never taken, and the basis-pair buffer has exactly
  \<open>nBasis * (nBasis + 1) / 2\<close> elements: none for a basis count of 0, six for 3.
\<close>

theorem resize_triangular_size:
  "2 * (nBasis sl * (nBasis sl + 1) div 2) = nBasis sl * (nBasis sl + 1)
   \<and> RoundError \<notin> set (snd (resize sl))
   \<and> length (m_basisPairValues (fst (resize sl))) = unat (nBasis sl * (nBasis sl + 1) div 2)
   \<and> (nBasis sl = 0 \<longrightarrow> length (m_basisPairValues (fst (resize sl))) = 0)
   \<and> (nBasis sl = 3 \<longrightarrow> length (m_basisPairValues (fst (resize sl))) = 6)"
proof -
  let ?n = "nBasis sl"
  have tw: "2 * (?n * (?n + 1) div 2) = ?n * (?n + 1)" by (rule triangular_twice)
  have log: "snd (resize sl) =
      [Offsets (shellAtomOffsets (fst (resize sl))), Offsets (basisAtomOffsets (fst (resize sl)))]"
    using tw by (simp add: resize_def Let_def)
  have len: "length (m_basisPairValues (fst (resize sl))) = unat (?n * (?n + 1) div 2)"
    using tw by (simp add: resize_def Let_def length_Vector_resize)
  have z: "?n = 0 \<longrightarrow> length (m_basisPairValues (fst (resize sl))) = 0"
    by (simp add: len)
  have t: "?n = 3 \<longrightarrow> length (m_basisPairValues (fst (resize sl))) = 6"
    by (simp add: len)
  from tw log len z t show ?thesis by simp
qed

theorem resize_triangular_size_witness:
  "nBasis (emptyBuffers []) = 0
   \<and> length (m_basisPairValues (fst (resize (emptyBuffers [])))) = 0
   \<and> nBasis (emptyBuffers [Shell P 0 (Vec 0 0 0) [1] [1]]) = 3
   \<and> length (m_basisPairValues (fst (resize (emptyBuffers [Shell P 0 (Vec 0 0 0) [1] [1]])))) = 6"
proof -
  have n0: "nBasis (emptyBuffers []) = 0"
    by (simp add: nBasis_def emptyBuffers_def)
  have n3: "nBasis (emptyBuffers [Shell P 0 (Vec 0 0 0) [1] [1]]) = 3"
    by (simp add: nBasis_def emptyBuffers_def Shell_nBasis_def)
  from n0 n3 resize_triangular_size [of "emptyBuffers []"]
    resize_triangular_size [of "emptyBuffers [Shell P 0 (Vec 0 0 0) [1] [1]]"]
  show ?thesis by simp
qed

subsection \<open>Bounding box\<close>

lemma std_min_eq: "std_min a b = min b a"
  by (simp add: std_min_def min_def)

lemma std_max_eq: "std_max a b = max b a"
  by (simp add: std_max_def max_def)

lemma Min_insert_min:
  "finite A \<Longrightarrow> Min (insert (min a b) A) = Min (insert a (insert b A))" for a b :: real
  by (cases "A = {}") (simp_all add: min.assoc)

lemma Max_insert_max:
  "finite A \<Longrightarrow> Max (insert (max a b) A) = Max (insert a (insert b A))" for a b :: real
  by (cases "A = {}") (simp_all add: max.assoc)

lemma boundingBox_loop_fold:
  "boundingBox_loop box thresh shs (mn, mx) =
    (Vec (Min (insert (Vec_x mn) ((\<lambda>sh. Vec_x (fst (box sh thresh))) ` set shs)))
         (Min (insert (Vec_y mn) ((\<lambda>sh. Vec_y (fst (box sh thresh))) ` set shs)))
         (Min (insert (Vec_z mn) ((\<lambda>sh. Vec_z (fst (box sh thresh))) ` set shs))),
     Vec (Max (insert (Vec_x mx) ((\<lambda>sh. Vec_x (snd (box sh thresh))) ` set shs)))
         (Max (insert (Vec_y mx) ((\<lambda>sh. Vec_y (snd (box sh thresh))) ` set shs)))
         (Max (insert (Vec_z mx) ((\<lambda>sh. Vec_z (snd (box sh thresh))) ` set shs))))"
proof (induction shs arbitrary: mn mx)
  case Nil
  then show ?case by simp
next
  case (Cons sh shs)
  obtain tmin tmax where b: "box sh thresh = (tmin, tmax)" by (cases "box sh thresh")
  show ?case
    by (simp add: b Cons.IH std_min_eq std_max_eq Min_insert_min Max_insert_max
        del: Min_insert Max_insert)
qed

text \<open>
  C9. \<^verbatim>\<open>boundingBox(min, max, thresh)\<close> on an empty container sets \<^verbatim>\<open>min\<close> and \<^verbatim>\<open>max\<close> to
  the origin. On a container with shells, each component of \<^verbatim>\<open>min\<close> is the least of that
  component of the shells' box minima at the threshold, and each component of \<^verbatim>\<open>max\<close> the
  greatest of that component of the shells' box maxima.
\<close>

theorem boundingBox_union:
  "boundingBox box sl thresh =
     (if shells sl = [] then (Vec 0 0 0, Vec 0 0 0)
      else (Vec (Min ((\<lambda>sh. Vec_x (fst (box sh thresh))) ` set (shells sl)))
                (Min ((\<lambda>sh. Vec_y (fst (box sh thresh))) ` set (shells sl)))
                (Min ((\<lambda>sh. Vec_z (fst (box sh thresh))) ` set (shells sl))),
            Vec (Max ((\<lambda>sh. Vec_x (snd (box sh thresh))) ` set (shells sl)))
                (Max ((\<lambda>sh. Vec_y (snd (box sh thresh))) ` set (shells sl)))
                (Max ((\<lambda>sh. Vec_z (snd (box sh thresh))) ` set (shells sl)))))"
proof (cases "shells sl")
  case Nil
  then show ?thesis by (simp add: boundingBox_def)
next
  case (Cons sh rest)
  obtain mn mx where b: "box sh thresh = (mn, mx)" by (cases "box sh thresh")
  have "insert (f sh) (f ` set (shells sl)) = f ` set (shells sl)" for f :: "Shell \<Rightarrow> real"
    using Cons by auto
  from this [of "\<lambda>sh. Vec_x (fst (box sh thresh))"] this [of "\<lambda>sh. Vec_y (fst (box sh thresh))"]
    this [of "\<lambda>sh. Vec_z (fst (box sh thresh))"] this [of "\<lambda>sh. Vec_x (snd (box sh thresh))"]
    this [of "\<lambda>sh. Vec_y (snd (box sh thresh))"] this [of "\<lambda>sh. Vec_z (snd (box sh thresh))"]
  have "boundingBox_loop box thresh (shells sl) (mn, mx) =
      (Vec (Min ((\<lambda>sh. Vec_x (fst (box sh thresh))) ` set (shells sl)))
                (Min ((\<lambda>sh. Vec_y (fst (box sh thresh))) ` set (shells sl)))
                (Min ((\<lambda>sh. Vec_z (fst (box sh thresh))) ` set (shells sl))),
            Vec (Max ((\<lambda>sh. Vec_x (snd (box sh thresh))) ` set (shells sl)))
                (Max ((\<lambda>sh. Vec_y (snd (box sh thresh))) ` set (shells sl)))
                (Max ((\<lambda>sh. Vec_z (snd (box sh thresh))) ` set (shells sl))))"
    unfolding boundingBox_loop_fold by (simp add: b)
  then show ?thesis
    using Cons b by (simp add: boundingBox_def del: boundingBox_loop.simps)
qed

theorem boundingBox_union_witness:
  "boundingBox exampleBox (emptyBuffers []) 1 = (Vec 0 0 0, Vec 0 0 0)
   \<and> boundingBox exampleBox (emptyBuffers [shellOn S 0, shellOn P 2, shellOn S 1]) 1
       = (Vec (- 1) (- 1) (- 1), Vec 3 1 1)"
  using boundingBox_union [of exampleBox "emptyBuffers []" 1]
    boundingBox_union [of exampleBox "emptyBuffers [shellOn S 0, shellOn P 2, shellOn S 1]" 1]
  by (simp add: emptyBuffers_def shellOn_def exampleBox_def)

subsection \<open>Atom offsets\<close>

lemma shellAtomOffsets_loop_acc:
  "shellAtomOffsets_loop shs k a offs = offs @ shellAtomOffsets_loop shs k a []"
proof (induction shs arbitrary: k a offs)
  case Nil
  then show ?case by simp
next
  case (Cons sh shs)
  show ?case
    using Cons.IH [of "k + 1" "a + 1" "offs @ [k]"] Cons.IH [of "k + 1" "a + 1" "[k]"]
      Cons.IH [of "k + 1" a offs]
    by simp
qed

lemma shellAtomOffsets_loop_length:
  "length offs \<le> length (shellAtomOffsets_loop shs k a offs)"
  by (subst shellAtomOffsets_loop_acc) simp

lemma shellAtomOffsets_loop_snoc:
  "shellAtomOffsets_loop (shs @ [sh]) k a offs =
     (let r = shellAtomOffsets_loop shs k a offs in
      if atomIndex sh \<noteq> a + of_nat (length r - length offs)
      then r @ [k + of_nat (length shs)] else r)"
proof (induction shs arbitrary: k a offs)
  case Nil
  then show ?case by simp
next
  case (Cons x shs)
  show ?case
  proof (cases "atomIndex x \<noteq> a")
    case True
    let ?r = "shellAtomOffsets_loop shs (k + 1) (a + 1) (offs @ [k])"
    have "length (offs @ [k]) \<le> length ?r" by (rule shellAtomOffsets_loop_length)
    then have "length ?r - length offs = Suc (length ?r - length (offs @ [k]))" by simp
    then have "a + of_nat (length ?r - length offs) = a + 1 + of_nat (length ?r - length (offs @ [k]))"
      by simp
    then show ?thesis using True Cons.IH [of "k + 1" "a + 1" "offs @ [k]"]
      by (simp add: Let_def add.assoc)
  next
    case False
    then show ?thesis using Cons.IH [of "k + 1" a offs] by (simp add: Let_def add.assoc)
  qed
qed

lemma shellAtomOffsets_loop_grouped:
  "grouped_from a shs \<Longrightarrow> shellAtomOffsets_loop shs k a offs = offs @ boundaries a k shs"
proof (induction shs arbitrary: k a offs)
  case Nil
  then show ?case by simp
next
  case (Cons sh shs)
  then show ?case by auto
qed

lemma shellAtomOffsets_loop_bounds:
  "unat k + length shs < 2 ^ 32 \<Longrightarrow> x \<in> set (shellAtomOffsets_loop shs k a []) \<Longrightarrow> k \<le> x"
proof (induction shs arbitrary: k a)
  case Nil
  then show ?case by simp
next
  case (Cons sh shs)
  have k1: "unat (k + 1) = Suc (unat k)"
    using Cons.prems(1) by (simp add: unat_word_ariths)
  then have le: "k \<le> k + 1" by (simp add: word_le_nat_alt)
  have pre: "unat (k + 1) + length shs < 2 ^ 32" using Cons.prems(1) k1 by simp
  show ?case
  proof (cases "atomIndex sh \<noteq> a")
    case True
    with Cons.prems(2) have "x = k \<or> x \<in> set (shellAtomOffsets_loop shs (k + 1) (a + 1) [])"
      using shellAtomOffsets_loop_acc [of shs "k + 1" "a + 1" "[k]"] by auto
    then show ?thesis using Cons.IH [OF pre] le by (blast intro: order_trans)
  next
    case False
    with Cons.prems(2) have "x \<in> set (shellAtomOffsets_loop shs (k + 1) a [])" by simp
    then show ?thesis using Cons.IH [OF pre] le by (blast intro: order_trans)
  qed
qed

lemma shellAtomOffsets_loop_increasing:
  "unat k + length shs < 2 ^ 32 \<Longrightarrow> sorted_wrt (<) (shellAtomOffsets_loop shs k a [])"
proof (induction shs arbitrary: k a)
  case Nil
  then show ?case by simp
next
  case (Cons sh shs)
  have k1: "unat (k + 1) = Suc (unat k)"
    using Cons.prems(1) by (simp add: unat_word_ariths)
  then have lt: "k < k + 1" by (simp add: word_less_nat_alt)
  have pre: "unat (k + 1) + length shs < 2 ^ 32" using Cons.prems(1) k1 by simp
  show ?case
  proof (cases "atomIndex sh \<noteq> a")
    case True
    have "\<forall>x\<in>set (shellAtomOffsets_loop shs (k + 1) (a + 1) []). k < x"
      using shellAtomOffsets_loop_bounds [OF pre] lt by fastforce
    then show ?thesis using True Cons.IH [OF pre, of "a + 1"]
      by (simp add: shellAtomOffsets_loop_acc [of shs "k + 1" "a + 1" "[k]"])
  next
    case False
    then show ?thesis using Cons.IH [OF pre, of a] by simp
  qed
qed

lemma boundaries_lower: "unat k + length shs < 2 ^ 32 \<Longrightarrow> x \<in> set (boundaries a k shs) \<Longrightarrow> k \<le> x"
proof (induction shs arbitrary: k a)
  case Nil
  then show ?case by simp
next
  case (Cons sh shs)
  have k1: "unat (k + 1) = Suc (unat k)"
    using Cons.prems(1) by (simp add: unat_word_ariths)
  then have le: "k \<le> k + 1" by (simp add: word_le_nat_alt)
  have pre: "unat (k + 1) + length shs < 2 ^ 32" using Cons.prems(1) k1 by simp
  from Cons.prems(2) have "x = k \<or> x \<in> set (boundaries (atomIndex sh) (k + 1) shs)"
    by (auto split: if_splits)
  then show ?case using Cons.IH [OF pre] le by (blast intro: order_trans)
qed

lemma shellAtomOffsets_loop_zero:
  "list_all (\<lambda>sh. atomIndex sh = a) shs \<Longrightarrow> shellAtomOffsets_loop shs k a offs = offs"
  by (induction shs arbitrary: k) auto

text \<open>
  C8. For every container \<^verbatim>\<open>shellAtomOffsets()\<close> starts with 0. Scanning the shells in
  order, it appends the position of the current shell when the shell's atom index differs
  from the expected atom index, which starts at 0 and advances by one at each position
  appended: an empty container gives \<open>[0]\<close>, and a container extended by one shell appends
  the position of that shell exactly when its atom index differs from the number of
  positions appended so far. The positions after the leading 0 are strictly increasing,
  and so is the whole sequence when the first shell is on atom 0. For shells grouped by
  increasing atom index (\<open>atomGrouped\<close>) the expected atom index is the atom index seen
  before, so the positions appended are the positions at which the atom index differs
  from the one seen before. For a container of three shells on the one atom 0 the result
  is \<open>[0]\<close>.
\<close>

theorem shellAtomOffsets_scan:
  "(\<exists>rest. shellAtomOffsets sl = 0 # rest)
   \<and> shellAtomOffsets (sl\<lparr>shells := []\<rparr>) = [0]
   \<and> shellAtomOffsets (sl\<lparr>shells := shells sl @ [sh]\<rparr>) =
       (if atomIndex sh \<noteq> of_nat (length (shellAtomOffsets sl) - 1)
        then shellAtomOffsets sl @ [usize (shells sl)] else shellAtomOffsets sl)
   \<and> (QList_ok (shells sl) \<longrightarrow> sorted_wrt (<) (tl (shellAtomOffsets sl)))
   \<and> (QList_ok (shells sl) \<and> startsOnAtom0 (shells sl) \<longrightarrow> sorted_wrt (<) (shellAtomOffsets sl))
   \<and> (atomGrouped (shells sl) \<longrightarrow> shellAtomOffsets sl = 0 # boundaries 0 0 (shells sl))
   \<and> (length (shells sl) = 3 \<and> list_all (\<lambda>sh. atomIndex sh = 0) (shells sl) \<longrightarrow>
        shellAtomOffsets sl = [0])"
proof -
  let ?shs = "shells sl"
  have acc: "shellAtomOffsets sl = 0 # shellAtomOffsets_loop ?shs 0 0 []"
    using shellAtomOffsets_loop_acc [of ?shs 0 0 "[0]"] by (simp add: shellAtomOffsets_def)
  have c1: "\<exists>rest. shellAtomOffsets sl = 0 # rest" using acc by blast
  have c2: "shellAtomOffsets (sl\<lparr>shells := []\<rparr>) = [0]" by (simp add: shellAtomOffsets_def)
  have c3: "shellAtomOffsets (sl\<lparr>shells := ?shs @ [sh]\<rparr>) =
       (if atomIndex sh \<noteq> of_nat (length (shellAtomOffsets sl) - 1)
        then shellAtomOffsets sl @ [usize ?shs] else shellAtomOffsets sl)"
    using shellAtomOffsets_loop_snoc [of ?shs sh 0 0 "[0]"]
    by (simp add: shellAtomOffsets_def Let_def usize_def)
  have small: "unat (0 :: unsigned) + length ?shs < 2 ^ 32" if "QList_ok ?shs"
    using that by (simp add: QList_ok_def)
  have c4: "sorted_wrt (<) (tl (shellAtomOffsets sl))" if "QList_ok ?shs"
    using shellAtomOffsets_loop_increasing [OF small [OF that], of 0] by (simp add: acc)
  have c5: "sorted_wrt (<) (shellAtomOffsets sl)" if ok: "QList_ok ?shs" and st: "startsOnAtom0 ?shs"
  proof (cases ?shs)
    case Nil
    then show ?thesis by (simp add: shellAtomOffsets_def)
  next
    case (Cons h rest)
    with st have h: "atomIndex h = 0" by (simp add: startsOnAtom0_def)
    have l: "shellAtomOffsets_loop ?shs 0 0 [] = shellAtomOffsets_loop rest 1 0 []"
      using Cons h by simp
    have "unat (1 :: unsigned) + length rest < 2 ^ 32" using ok Cons by (simp add: QList_ok_def)
    then have "\<forall>x\<in>set (shellAtomOffsets_loop rest 1 0 []). 1 \<le> x"
      using shellAtomOffsets_loop_bounds by blast
    then have pos: "\<forall>x\<in>set (shellAtomOffsets_loop ?shs 0 0 []). 0 < x"
      unfolding l by (auto simp: word_less_nat_alt word_le_nat_alt)
    have "sorted_wrt (<) (shellAtomOffsets_loop ?shs 0 0 [])" using c4 [OF ok] acc by simp
    with pos show ?thesis unfolding acc by simp
  qed
  have c6: "shellAtomOffsets sl = 0 # boundaries 0 0 ?shs" if gr: "atomGrouped ?shs"
    using shellAtomOffsets_loop_grouped [of 0 ?shs 0 "[0]"] gr
    by (simp add: shellAtomOffsets_def atomGrouped_def)
  have c7: "shellAtomOffsets sl = [0]" if "list_all (\<lambda>sh. atomIndex sh = 0) ?shs"
    using shellAtomOffsets_loop_zero [OF that] by (simp add: shellAtomOffsets_def)
  from c1 c2 c3 c4 c5 c6 c7 show ?thesis by blast
qed

theorem shellAtomOffsets_scan_witness:
  "shellAtomOffsets (emptyBuffers [shellOn S 0, shellOn P 0, shellOn D5 0]) = [0]
   \<and> shellAtomOffsets (emptyBuffers [shellOn S 0, shellOn P 0, shellOn S 1, shellOn S 2, shellOn P 2])
       = 0 # boundaries 0 0 [shellOn S 0, shellOn P 0, shellOn S 1, shellOn S 2, shellOn P 2]
   \<and> boundaries 0 0 [shellOn S 0, shellOn P 0, shellOn S 1, shellOn S 2, shellOn P 2] = [2, 3]
   \<and> sorted_wrt (<) (shellAtomOffsets
        (emptyBuffers [shellOn S 0, shellOn P 0, shellOn S 1, shellOn S 2, shellOn P 2]))"
proof -
  let ?one = "emptyBuffers [shellOn S 0, shellOn P 0, shellOn D5 0]"
  let ?three = "emptyBuffers [shellOn S 0, shellOn P 0, shellOn S 1, shellOn S 2, shellOn P 2]"
  have one: "length (shells ?one) = 3 \<and> list_all (\<lambda>sh. atomIndex sh = 0) (shells ?one)"
    by (simp add: emptyBuffers_def shellOn_def)
  have three: "QList_ok (shells ?three) \<and> startsOnAtom0 (shells ?three) \<and> atomGrouped (shells ?three)"
    by (simp add: emptyBuffers_def shellOn_def QList_ok_def atomGrouped_def startsOnAtom0_def)
  have b: "boundaries 0 0 (shells ?three) = [2, 3]"
    by (simp add: emptyBuffers_def shellOn_def)
  have sh: "shells ?three = [shellOn S 0, shellOn P 0, shellOn S 1, shellOn S 2, shellOn P 2]"
    by (simp add: emptyBuffers_def)
  from one three b shellAtomOffsets_scan [of ?one] shellAtomOffsets_scan [of ?three]
  show ?thesis unfolding sh by simp
qed

text \<open>
  The expected atom index is not the atom index of the shell before. For shells on the
  atoms 0, 2 and 2 (no shell on atom 1) the positions 1 and 2 are both appended: the
  third shell is on the atom of the second, and is compared with the expected atom 1.
  Appending where the atom index differs from the one seen before gives \<open>[0, 1]\<close>.
\<close>

theorem shellAtomOffsets_scan_counterexample:
  "shellAtomOffsets (emptyBuffers [shellOn S 0, shellOn S 2, shellOn P 2]) = [0, 1, 2]
   \<and> 0 # boundaries 0 0 (shells (emptyBuffers [shellOn S 0, shellOn S 2, shellOn P 2])) = [0, 1]
   \<and> shellAtomOffsets (emptyBuffers [shellOn S 0, shellOn S 2, shellOn P 2])
       \<noteq> 0 # boundaries 0 0 (shells (emptyBuffers [shellOn S 0, shellOn S 2, shellOn P 2]))"
  by (simp add: shellAtomOffsets_def emptyBuffers_def shellOn_def)

subsection \<open>Loops and buffers\<close>

lemma replicate_numeral: "replicate (numeral k) x = x # replicate (pred_numeral k) x"
  by (simp add: numeral_eq_Suc)

lemma word_le_inc: "i < n \<Longrightarrow> i \<le> i + 1" for i n :: "'a::len word"
  using unat_inc [of i n] by (simp add: word_le_nat_alt)

lemma for_loop_rule:
  assumes "i \<le> n" and "Inv i s"
    and step: "\<And>k t. i \<le> k \<Longrightarrow> k < n \<Longrightarrow> Inv k t \<Longrightarrow> \<exists>t'. body k t = Some t' \<and> Inv (k + 1) t'"
  shows "\<exists>t. for_loop i n body s = Some t \<and> Inv n t"
  using assms
proof (induction i n body s rule: for_loop.induct)
  case (1 i n body s)
  show ?case
  proof (cases "i < n")
    case True
    from "1.prems"(3) [OF order_refl True "1.prems"(2)]
    obtain t' where t': "body i s = Some t'" "Inv (i + 1) t'" by blast
    have le: "i + 1 \<le> n" using True by (rule inc_le)
    have lt: "i \<le> i + 1" using True by (rule word_le_inc)
    have "\<exists>t. for_loop (i + 1) n body t' = Some t \<and> Inv n t"
    proof (rule "1.IH" [OF True t'(1) le t'(2)])
      fix k t
      assume "i + 1 \<le> k" "k < n" "Inv k t"
      with lt show "\<exists>t'. body k t = Some t' \<and> Inv (k + 1) t'"
        by (intro "1.prems"(3)) auto
    qed
    then show ?thesis using True t' by (subst for_loop.simps) simp
  next
    case False
    with "1.prems" have "i = n" by simp
    then show ?thesis using "1.prems" by (subst for_loop.simps) simp
  qed
qed

lemma for_loop_from_zero:
  assumes "Inv 0 s"
    and "\<And>k t. k < n \<Longrightarrow> Inv k t \<Longrightarrow> \<exists>t'. body k t = Some t' \<and> Inv (k + 1) t'"
  shows "\<exists>t. for_loop 0 n body s = Some t \<and> Inv n t"
  using assms by (intro for_loop_rule) auto

lemma window_update:
  assumes "a + k < length bv" and that: "k = length ws"
  shows "(take a bv @ ws @ drop (a + length ws) bv)[a + length ws := v]
       = take a bv @ (ws @ [v]) @ drop (a + length (ws @ [v])) bv"
proof -
  have d: "drop (a + k) bv = bv ! (a + k) # drop (Suc (a + k)) bv"
    using assms by (simp add: Cons_nth_drop_Suc)
  have la: "length (take a bv) = a" using assms by simp
  show ?thesis
    using that d la by (simp add: list_update_append)
qed

text \<open>The loop that copies the values of a shell, or zeros, into the buffer at the offset.\<close>

lemma write_loop:
  fixes body :: "unsigned \<Rightarrow> unsigned \<times> double list \<Rightarrow> (unsigned \<times> double list) option"
  assumes fit: "unat offset + unat n \<le> length bv" and small: "length bv < 2 ^ 32"
    and len: "length ws = unat n"
    and body: "\<And>k off b. k < n \<Longrightarrow> unat off < length b \<Longrightarrow>
                 body k (off, b) = Some (off + 1, b[unat off := ws ! unat k])"
  shows "for_loop 0 n body (offset, bv)
       = Some (offset + n, take (unat offset) bv @ ws @ drop (unat offset + unat n) bv)"
proof -
  define Inv where "Inv k st \<longleftrightarrow>
    st = (offset + k, take (unat offset) bv @ take (unat k) ws @ drop (unat offset + unat k) bv)"
    for k :: unsigned and st :: "unsigned \<times> double list"
  have "\<exists>t. for_loop 0 n body (offset, bv) = Some t \<and> Inv n t"
  proof (rule for_loop_from_zero)
    show "Inv 0 (offset, bv)" by (simp add: Inv_def)
  next
    fix k t
    assume k: "k < n" and inv: "Inv k t"
    have kn: "unat k < unat n" using k by (simp add: word_less_nat_alt)
    have k1: "unat (k + 1) = Suc (unat k)" using k by (rule unat_inc)
    have ok: "unat (offset + k) = unat offset + unat k"
      using fit small kn by (simp add: unat_word_ariths)
    let ?b = "take (unat offset) bv @ take (unat k) ws @ drop (unat offset + unat k) bv"
    have lb: "length ?b = length bv" using fit kn len by simp
    have t: "t = (offset + k, ?b)" using inv by (simp add: Inv_def)
    have step: "body k t = Some (offset + k + 1, ?b[unat (offset + k) := ws ! unat k])"
      unfolding t using fit kn lb ok by (intro body [OF k]) simp
    have tk: "take (Suc (unat k)) ws = take (unat k) ws @ [ws ! unat k]"
      using kn len by (simp add: take_Suc_conv_app_nth)
    have "?b[unat offset + unat k := ws ! unat k]
        = take (unat offset) bv @ take (Suc (unat k)) ws @ drop (unat offset + Suc (unat k)) bv"
      using window_update [of "unat offset" "unat k" bv "take (unat k) ws" "ws ! unat k"] fit kn len tk
      by simp
    then have "Inv (k + 1) (offset + k + 1, ?b[unat (offset + k) := ws ! unat k])"
      by (simp add: Inv_def k1 ok add.assoc)
    with step show "\<exists>t'. body k t = Some t' \<and> Inv (k + 1) t'" by blast
  qed
  then show ?thesis using len by (auto simp: Inv_def)
qed

lemma basisCount_Cons [simp]: "basisCount (sh # shs) = unat (Shell_nBasis sh) + basisCount shs"
  by (simp add: basisCount_def)

lemma basisCount_Nil [simp]: "basisCount [] = 0"
  by (simp add: basisCount_def)

lemma basisCount_append [simp]: "basisCount (xs @ ys) = basisCount xs + basisCount ys"
  by (simp add: basisCount_def)

lemma evaluate_ok_Cons [simp]:
  "evaluate_ok ev (sh # shs) \<longleftrightarrow>
     (case ev sh of None \<Rightarrow> True | Some vs \<Rightarrow> length vs = unat (Shell_nBasis sh)) \<and> evaluate_ok ev shs"
  by (simp add: evaluate_ok_def)

lemma evaluate_ok_Nil [simp]: "evaluate_ok ev []"
  by (simp add: evaluate_ok_def)

lemma evaluate_ok_append [simp]:
  "evaluate_ok ev (xs @ ys) \<longleftrightarrow> evaluate_ok ev xs \<and> evaluate_ok ev ys"
  by (simp add: evaluate_ok_def)

lemma length_shellSlice:
  "(case ev sh of None \<Rightarrow> True | Some vs \<Rightarrow> length vs = unat (Shell_nBasis sh))
    \<Longrightarrow> length (shellSlice ev sh) = unat (Shell_nBasis sh)"
  by (simp add: shellSlice_def split: option.splits)

lemma length_basisVector: "evaluate_ok ev shs \<Longrightarrow> length (basisVector ev shs) = basisCount shs"
  by (induction shs) (simp_all add: basisVector_def length_shellSlice)

lemma basisVector_Cons: "basisVector ev (sh # shs) = shellSlice ev sh @ basisVector ev shs"
  by (simp add: basisVector_def)

lemma basisVector_append: "basisVector ev (xs @ ys) = basisVector ev xs @ basisVector ev ys"
  by (simp add: basisVector_def)

lemma unat_fold_nBasis:
  "unat n0 + basisCount shs < 2 ^ 32
    \<Longrightarrow> unat (fold (\<lambda>sh n. n + Shell_nBasis sh) shs n0) = unat n0 + basisCount shs"
proof (induction shs arbitrary: n0)
  case Nil
  then show ?case by simp
next
  case (Cons sh shs)
  have "unat (n0 + Shell_nBasis sh) = unat n0 + unat (Shell_nBasis sh)"
    using Cons.prems by (simp add: unat_word_ariths)
  then show ?case using Cons.prems Cons.IH [of "n0 + Shell_nBasis sh"] by simp
qed

lemma unat_nBasis: "basisCount (shells sl) < 2 ^ 32 \<Longrightarrow> unat (nBasis sl) = basisCount (shells sl)"
  using unat_fold_nBasis [of 0 "shells sl"] by (simp add: nBasis_def)

lemma shellValues_loop_result:
  assumes "unat offset + basisCount shs \<le> length bv" and "length bv < 2 ^ 32"
    and "evaluate_ok ev shs"
  shows "shellValues_loop ev shs (offset, bv)
       = Some (offset + of_nat (basisCount shs),
               take (unat offset) bv @ basisVector ev shs @ drop (unat offset + basisCount shs) bv)"
  using assms
proof (induction shs arbitrary: offset bv)
  case Nil
  then show ?case by (simp add: basisVector_def)
next
  case (Cons sh shs)
  let ?n = "Shell_nBasis sh"
  let ?ws = "shellSlice ev sh"
  let ?bv1 = "take (unat offset) bv @ ?ws @ drop (unat offset + unat ?n) bv"
  have ok: "evaluate_ok ev shs"
    and this_ok: "case ev sh of None \<Rightarrow> True | Some vs \<Rightarrow> length vs = unat ?n"
    using Cons.prems(3) by simp_all
  have lws: "length ?ws = unat ?n" using this_ok by (rule length_shellSlice)
  have fit: "unat offset + unat ?n \<le> length bv" using Cons.prems(1) by simp
  have un: "unat (offset + ?n) = unat offset + unat ?n"
    using fit Cons.prems(2) by (simp add: unat_word_ariths)
  have l1: "length ?bv1 = length bv" using fit lws by simp
  have pre1: "unat (offset + ?n) + basisCount shs \<le> length ?bv1"
    using Cons.prems(1) un l1 by simp
  have pre2: "length ?bv1 < 2 ^ 32" using Cons.prems(2) l1 by simp
  have rest: "shellValues_loop ev shs (offset + ?n, ?bv1)
      = Some (offset + ?n + of_nat (basisCount shs),
              take (unat (offset + ?n)) ?bv1 @ basisVector ev shs
              @ drop (unat (offset + ?n) + basisCount shs) ?bv1)"
    by (rule Cons.IH [OF pre1 pre2 ok])
  have tk: "take (unat (offset + ?n)) ?bv1 = take (unat offset) bv @ ?ws"
    using fit lws un by simp
  have dr: "drop (unat (offset + ?n) + basisCount shs) ?bv1
      = drop (unat offset + basisCount (sh # shs)) bv"
    using fit lws un by (simp add: add.commute add.left_commute)
  have cnt: "offset + ?n + of_nat (basisCount shs) = offset + of_nat (basisCount (sh # shs))"
    by simp
  have res: "shellValues_loop ev shs (offset + ?n, ?bv1)
      = Some (offset + of_nat (basisCount (sh # shs)),
              take (unat offset) bv @ basisVector ev (sh # shs)
              @ drop (unat offset + basisCount (sh # shs)) bv)"
    unfolding rest tk dr cnt by (simp add: basisVector_Cons)
  show ?case
  proof (cases "ev sh")
    case None
    have ws: "?ws = replicate (unat ?n) 0" using None by (simp add: shellSlice_def)
    have "for_loop 0 ?n
            (\<lambda>s (offset, bv). do { bv' \<leftarrow> put_at bv offset 0; Some (offset + 1, bv') })
            (offset, bv) = Some (offset + ?n, ?bv1)"
    proof (rule write_loop [OF fit Cons.prems(2) lws])
      fix k off :: unsigned and b :: "double list"
      assume "k < ?n" "unat off < length b"
      then show "(case (off, b) of
            (offset, bv) \<Rightarrow> do { bv' \<leftarrow> put_at bv offset 0; Some (offset + 1, bv') })
          = Some (off + 1, b[unat off := ?ws ! unat k])"
        by (simp add: put_at_def ws word_less_nat_alt)
    qed
    then show ?thesis using None res by simp
  next
    case (Some vals)
    have ws: "?ws = vals" using Some by (simp add: shellSlice_def)
    have "for_loop 0 ?n
            (\<lambda>s (offset, bv). do {
               v \<leftarrow> get_at vals s; bv' \<leftarrow> put_at bv offset v; Some (offset + 1, bv') })
            (offset, bv) = Some (offset + ?n, ?bv1)"
    proof (rule write_loop [OF fit Cons.prems(2) lws])
      fix k off :: unsigned and b :: "double list"
      assume "k < ?n" "unat off < length b"
      then show "(case (off, b) of
            (offset, bv) \<Rightarrow> do {
               v \<leftarrow> get_at vals k; bv' \<leftarrow> put_at bv offset v; Some (offset + 1, bv') })
          = Some (off + 1, b[unat off := ?ws ! unat k])"
        using lws by (simp add: put_at_def get_at_def ws word_less_nat_alt)
    qed
    then show ?thesis using Some res by simp
  qed
qed

lemma basisVector_slice:
  assumes "evaluate_ok ev shs" and "j < length shs"
  shows "take (unat (Shell_nBasis (shs ! j))) (drop (basisCount (take j shs)) (basisVector ev shs))
       = shellSlice ev (shs ! j)"
proof -
  have split: "shs = take j shs @ shs ! j # drop (Suc j) shs"
    using assms(2) by (simp add: id_take_nth_drop)
  have ok1: "evaluate_ok ev (take j shs)" and ok2: "evaluate_ok ev [shs ! j]"
    using assms(1) split by (metis evaluate_ok_append evaluate_ok_Cons evaluate_ok_Nil)+
  have l1: "length (basisVector ev (take j shs)) = basisCount (take j shs)"
    using ok1 by (rule length_basisVector)
  have l2: "length (shellSlice ev (shs ! j)) = unat (Shell_nBasis (shs ! j))"
    using ok2 by (simp add: length_shellSlice)
  have "basisVector ev shs = basisVector ev (take j shs) @ shellSlice ev (shs ! j)
      @ basisVector ev (drop (Suc j) shs)"
    by (subst split) (simp add: basisVector_append basisVector_Cons)
  then show ?thesis using l1 l2 by simp
qed

lemma basisVector_all_null:
  "\<forall>sh\<in>set shs. ev sh = None \<Longrightarrow> basisVector ev shs = replicate (basisCount shs) 0"
  by (induction shs) (simp_all add: basisVector_def shellSlice_def replicate_add)

lemma shellValues_result:
  assumes "resized sl" and "evaluate_ok (\<lambda>sh. evaluate sh x y z) (shells sl)"
  shows "shellValues evaluate sl x y z
       = Some (sl\<lparr>m_basisValues := basisVector (\<lambda>sh. evaluate sh x y z) (shells sl)\<rparr>)"
proof -
  let ?ev = "\<lambda>sh. evaluate sh x y z"
  have n: "unat (nBasis sl) = basisCount (shells sl)"
    using assms(1) by (simp add: resized_def unat_nBasis)
  have len: "length (m_basisValues sl) = basisCount (shells sl)"
    using assms(1) n by (simp add: resized_def)
  have bc: "basisCount (shells sl) < 2 ^ 32" using assms(1) by (simp add: resized_def)
  have "shellValues_loop ?ev (shells sl) (0, m_basisValues sl)
      = Some (0 + of_nat (basisCount (shells sl)),
              take (unat (0 :: unsigned)) (m_basisValues sl) @ basisVector ?ev (shells sl)
              @ drop (unat (0 :: unsigned) + basisCount (shells sl)) (m_basisValues sl))"
    using bc assms(2) by (intro shellValues_loop_result) (simp_all add: len)
  then show ?thesis by (simp add: shellValues_def len)
qed

subsection \<open>Basis values\<close>

lemma resize_resized: "basisCount (shells sl) < 2 ^ 32 \<Longrightarrow> resized (fst (resize sl))"
  by (simp add: resized_def resize_def Let_def nBasis_def length_Vector_resize)

lemma resize_shells: "shells (fst (resize sl)) = shells sl"
  by (simp add: resize_def Let_def)

text \<open>
  C3. For every point, \<^verbatim>\<open>shellValues(x, y, z)\<close> returns a vector of \<open>nBasis\<close> values in
  which every shell has its slice at its global offset (the number of basis functions of
  the shells before it): the values of the shell where \<^verbatim>\<open>evaluate\<close> is not null, zeros
  where it is null. At a point where every shell evaluates to null the result is the
  vector of \<open>nBasis\<close> zeros. The container is one whose buffers \<^verbatim>\<open>resize()\<close> has sized
  (\<open>resized\<close>), and \<^verbatim>\<open>evaluate\<close> returns null or one value per basis function of the shell
  (\<open>evaluate_ok\<close>).
\<close>

theorem shellValues_aligned:
  assumes "resized sl" and "evaluate_ok (\<lambda>sh. evaluate sh x y z) (shells sl)"
  shows "shellValues evaluate sl x y z
       = Some (sl\<lparr>m_basisValues := basisVector (\<lambda>sh. evaluate sh x y z) (shells sl)\<rparr>)
    \<and> length (basisVector (\<lambda>sh. evaluate sh x y z) (shells sl)) = unat (nBasis sl)
    \<and> (\<forall>j<length (shells sl).
          take (unat (Shell_nBasis (shells sl ! j)))
            (drop (basisCount (take j (shells sl))) (basisVector (\<lambda>sh. evaluate sh x y z) (shells sl)))
          = (case evaluate (shells sl ! j) x y z of
               Some vals \<Rightarrow> vals
             | None \<Rightarrow> replicate (unat (Shell_nBasis (shells sl ! j))) 0))
    \<and> ((\<forall>sh\<in>set (shells sl). evaluate sh x y z = None) \<longrightarrow>
          basisVector (\<lambda>sh. evaluate sh x y z) (shells sl) = replicate (unat (nBasis sl)) 0)"
proof -
  let ?ev = "\<lambda>sh. evaluate sh x y z"
  have n: "unat (nBasis sl) = basisCount (shells sl)"
    using assms(1) by (simp add: resized_def unat_nBasis)
  have r: "shellValues evaluate sl x y z = Some (sl\<lparr>m_basisValues := basisVector ?ev (shells sl)\<rparr>)"
    using assms by (rule shellValues_result)
  have l: "length (basisVector ?ev (shells sl)) = unat (nBasis sl)"
    using assms(2) by (simp add: length_basisVector n)
  have sl: "take (unat (Shell_nBasis (shells sl ! j)))
            (drop (basisCount (take j (shells sl))) (basisVector ?ev (shells sl)))
          = (case evaluate (shells sl ! j) x y z of
               Some vals \<Rightarrow> vals
             | None \<Rightarrow> replicate (unat (Shell_nBasis (shells sl ! j))) 0)"
    if "j < length (shells sl)" for j
    using basisVector_slice [OF assms(2) that] by (simp add: shellSlice_def)
  have z: "basisVector ?ev (shells sl) = replicate (unat (nBasis sl)) 0"
    if "\<forall>sh\<in>set (shells sl). evaluate sh x y z = None"
    using basisVector_all_null [of "shells sl" ?ev] that by (simp add: n)
  from r l sl z show ?thesis by blast
qed

lemma exampleList_eq:
  "exampleList = (emptyBuffers [shellOn S 0, shellOn P 0, shellOn D5 1])
     \<lparr>m_nBasis := 9, m_basisValues := replicate 9 0, m_sigBasis := replicate 9 0,
      m_basisPairValues := replicate 45 0\<rparr>"
  by (simp add: exampleList_def resize_def Let_def nBasis_def emptyBuffers_def shellOn_def
      Shell_nBasis_def Vector_resize_def)

lemma exampleList_resized: "resized exampleList"
  unfolding exampleList_def
  by (rule resize_resized) (simp add: emptyBuffers_def shellOn_def Shell_nBasis_def)

lemma exampleList_shells: "shells exampleList = [shellOn S 0, shellOn P 0, shellOn D5 1]"
  by (simp add: exampleList_def resize_shells emptyBuffers_def)

lemma exampleEvaluate_ok: "evaluate_ok (\<lambda>sh. exampleEvaluate sh x y z) (shells exampleList)"
  by (simp add: exampleList_shells exampleEvaluate_def shellOn_def Shell_nBasis_def)

theorem shellValues_aligned_witness:
  "shellValues exampleEvaluate exampleList (- 1) 2 3
     = Some (exampleList\<lparr>m_basisValues := [1, 0, 0, 0, - 1, - 1, - 1, - 1, - 1]\<rparr>)
   \<and> shellValues exampleEvaluate exampleList 1 2 3
     = Some (exampleList\<lparr>m_basisValues := [3, 1, 2, 3, 1, 1, 1, 1, 1]\<rparr>)
   \<and> shellValues exampleEvaluate exampleList 11 0 0
     = Some (exampleList\<lparr>m_basisValues := replicate 9 0\<rparr>)"
proof -
  have v1: "basisVector (\<lambda>sh. exampleEvaluate sh (- 1) 2 3) (shells exampleList)
      = [1, 0, 0, 0, - 1, - 1, - 1, - 1, - 1]"
    by (simp add: exampleList_shells basisVector_def shellSlice_def exampleEvaluate_def shellOn_def
        Shell_nBasis_def replicate_numeral)
  have v2: "basisVector (\<lambda>sh. exampleEvaluate sh 1 2 3) (shells exampleList)
      = [3, 1, 2, 3, 1, 1, 1, 1, 1]"
    by (simp add: exampleList_shells basisVector_def shellSlice_def exampleEvaluate_def shellOn_def
        Shell_nBasis_def replicate_numeral)
  have v3: "basisVector (\<lambda>sh. exampleEvaluate sh 11 0 0) (shells exampleList) = replicate 9 0"
    by (simp add: exampleList_shells basisVector_def shellSlice_def exampleEvaluate_def shellOn_def
        Shell_nBasis_def replicate_numeral)
  from shellValues_aligned [of exampleList exampleEvaluate "- 1" 2 3, OF exampleList_resized exampleEvaluate_ok]
    shellValues_aligned [of exampleList exampleEvaluate 1 2 3, OF exampleList_resized exampleEvaluate_ok]
    shellValues_aligned [of exampleList exampleEvaluate 11 0 0, OF exampleList_resized exampleEvaluate_ok]
  show ?thesis unfolding v1 v2 v3 by blast
qed

subsection \<open>The significance scan\<close>

lemma pair_window_loop:
  fixes body :: "unsigned \<Rightarrow> sigState \<Rightarrow> sigState option"
  assumes fit: "unat nSig + unat n \<le> length bv" and small: "length bv < 2 ^ 32"
    and same: "length sig = length bv" and len: "length ws = unat n"
    and body: "\<And>k a off b g. k < n \<Longrightarrow> unat a < length b \<Longrightarrow> length g = length b \<Longrightarrow>
                 body k (a, off, b, g) = Some (a + 1, off + 1, b[unat a := ws ! unat k], g[unat a := off])"
  shows "for_loop 0 n body (nSig, basoff, bv, sig)
       = Some (nSig + n, basoff + n,
               take (unat nSig) bv @ ws @ drop (unat nSig + unat n) bv,
               take (unat nSig) sig @ map (\<lambda>i. basoff + of_nat i) [0..<unat n]
               @ drop (unat nSig + unat n) sig)"
proof -
  define Inv where "Inv k st \<longleftrightarrow>
    st = (nSig + k, basoff + k,
          take (unat nSig) bv @ take (unat k) ws @ drop (unat nSig + unat k) bv,
          take (unat nSig) sig @ map (\<lambda>i. basoff + of_nat i) [0..<unat k]
          @ drop (unat nSig + unat k) sig)"
    for k :: unsigned and st :: sigState
  have "\<exists>t. for_loop 0 n body (nSig, basoff, bv, sig) = Some t \<and> Inv n t"
  proof (rule for_loop_from_zero)
    show "Inv 0 (nSig, basoff, bv, sig)" by (simp add: Inv_def)
  next
    fix k t
    assume k: "k < n" and inv: "Inv k t"
    have kn: "unat k < unat n" using k by (simp add: word_less_nat_alt)
    have k1: "unat (k + 1) = Suc (unat k)" using k by (rule unat_inc)
    have ok: "unat (nSig + k) = unat nSig + unat k"
      using fit small kn by (simp add: unat_word_ariths)
    let ?b = "take (unat nSig) bv @ take (unat k) ws @ drop (unat nSig + unat k) bv"
    let ?ix = "map (\<lambda>i. basoff + of_nat i) [0..<unat k]"
    let ?g = "take (unat nSig) sig @ ?ix @ drop (unat nSig + unat k) sig"
    have lb: "length ?b = length bv" using fit kn len by simp
    have lg: "length ?g = length bv" using fit kn same by simp
    have t: "t = (nSig + k, basoff + k, ?b, ?g)" using inv by (simp add: Inv_def)
    have step: "body k t = Some (nSig + k + 1, basoff + k + 1,
        ?b[unat (nSig + k) := ws ! unat k], ?g[unat (nSig + k) := basoff + k])"
      unfolding t using fit kn lb lg ok by (intro body [OF k]) simp_all
    have tk: "take (Suc (unat k)) ws = take (unat k) ws @ [ws ! unat k]"
      using kn len by (simp add: take_Suc_conv_app_nth)
    have b': "?b[unat nSig + unat k := ws ! unat k]
        = take (unat nSig) bv @ take (Suc (unat k)) ws @ drop (unat nSig + Suc (unat k)) bv"
      using window_update [of "unat nSig" "unat k" bv "take (unat k) ws" "ws ! unat k"] fit kn len tk
      by simp
    have g': "?g[unat nSig + unat k := basoff + k]
        = take (unat nSig) sig @ map (\<lambda>i. basoff + of_nat i) [0..<Suc (unat k)]
          @ drop (unat nSig + Suc (unat k)) sig"
      using window_update [of "unat nSig" "unat k" sig ?ix "basoff + k"] fit kn same
      by simp
    have "Inv (k + 1) (nSig + k + 1, basoff + k + 1,
        ?b[unat (nSig + k) := ws ! unat k], ?g[unat (nSig + k) := basoff + k])"
      unfolding Inv_def k1 ok b' g' by (simp add: add.assoc)
    with step show "\<exists>t'. body k t = Some t' \<and> Inv (k + 1) t'" by blast
  qed
  then show ?thesis using len by (auto simp: Inv_def)
qed

lemma length_sigEntries: "evaluate_ok ev shs \<Longrightarrow> length (sigEntries ev off shs) \<le> basisCount shs"
proof (induction shs arbitrary: off)
  case Nil
  then show ?case by simp
next
  case (Cons sh shs)
  have "length (sigEntries ev (off + Shell_nBasis sh) shs) \<le> basisCount shs"
    using Cons.IH Cons.prems by simp
  then show ?case using Cons.prems by (auto split: option.splits)
qed

lemma densityValues_scan_result:
  assumes "unat nSig + basisCount shs \<le> length bv" and "length bv < 2 ^ 32"
    and "length sig = length bv" and "evaluate_ok ev shs"
  shows "densityValues_scan ev shs (nSig, basoff, bv, sig)
       = Some (nSig + of_nat (length (sigEntries ev basoff shs)),
               basoff + of_nat (basisCount shs),
               take (unat nSig) bv @ map fst (sigEntries ev basoff shs)
               @ drop (unat nSig + length (sigEntries ev basoff shs)) bv,
               take (unat nSig) sig @ map snd (sigEntries ev basoff shs)
               @ drop (unat nSig + length (sigEntries ev basoff shs)) sig)"
  using assms
proof (induction shs arbitrary: nSig basoff bv sig)
  case Nil
  then show ?case by simp
next
  case (Cons sh shs)
  let ?n = "Shell_nBasis sh"
  have ok: "evaluate_ok ev shs"
    and this_ok: "case ev sh of None \<Rightarrow> True | Some vs \<Rightarrow> length vs = unat ?n"
    using Cons.prems(4) by simp_all
  let ?E' = "sigEntries ev (basoff + ?n) shs"
  have lE': "length ?E' \<le> basisCount shs" using ok by (rule length_sigEntries)
  have cnt: "basoff + ?n + of_nat (basisCount shs) = basoff + of_nat (basisCount (sh # shs))"
    by simp
  show ?case
  proof (cases "ev sh")
    case None
    have pre: "unat nSig + basisCount shs \<le> length bv" using Cons.prems(1) by simp
    have E: "sigEntries ev basoff (sh # shs) = ?E'" using None by simp
    show ?thesis
      using None Cons.IH [OF pre Cons.prems(2) Cons.prems(3) ok, of "basoff + ?n"]
      unfolding E cnt by simp
  next
    case (Some vals)
    let ?ixs = "map (\<lambda>i. basoff + of_nat i) [0..<unat ?n]"
    let ?bv1 = "take (unat nSig) bv @ vals @ drop (unat nSig + unat ?n) bv"
    let ?sig1 = "take (unat nSig) sig @ ?ixs @ drop (unat nSig + unat ?n) sig"
    have lv: "length vals = unat ?n" using this_ok Some by simp
    have fit: "unat nSig + unat ?n \<le> length bv" using Cons.prems(1) by simp
    have un: "unat (nSig + ?n) = unat nSig + unat ?n"
      using fit Cons.prems(2) by (simp add: unat_word_ariths)
    have l1: "length ?bv1 = length bv" using fit lv by simp
    have l2: "length ?sig1 = length ?bv1" using fit lv Cons.prems(3) by simp
    have pre1: "unat (nSig + ?n) + basisCount shs \<le> length ?bv1"
      using Cons.prems(1) un l1 by simp
    have pre2: "length ?bv1 < 2 ^ 32" using Cons.prems(2) l1 by simp
    have E: "sigEntries ev basoff (sh # shs) = zip vals ?ixs @ ?E'" using Some by simp
    have lz: "length (zip vals ?ixs) = unat ?n" using lv by simp
    have mf: "map fst (zip vals ?ixs) = vals" and ms: "map snd (zip vals ?ixs) = ?ixs"
      using lv by (simp_all add: map_fst_zip map_snd_zip)
    have loop: "for_loop 0 ?n
            (\<lambda>i (nSigBas, basoff, bv, sig). do {
               v \<leftarrow> get_at vals i;
               bv' \<leftarrow> put_at bv nSigBas v;
               sig' \<leftarrow> put_at sig nSigBas basoff;
               Some (nSigBas + 1, basoff + 1, bv', sig')
             }) (nSig, basoff, bv, sig) = Some (nSig + ?n, basoff + ?n, ?bv1, ?sig1)"
    proof (rule pair_window_loop [OF fit Cons.prems(2) Cons.prems(3) lv])
      fix k a off :: unsigned and b :: "double list" and g :: "unsigned list"
      assume "k < ?n" "unat a < length b" "length g = length b"
      then show "(case (a, off, b, g) of
            (nSigBas, basoff, bv, sig) \<Rightarrow> do {
               v \<leftarrow> get_at vals k;
               bv' \<leftarrow> put_at bv nSigBas v;
               sig' \<leftarrow> put_at sig nSigBas basoff;
               Some (nSigBas + 1, basoff + 1, bv', sig')
             }) = Some (a + 1, off + 1, b[unat a := vals ! unat k], g[unat a := off])"
        using lv by (simp add: put_at_def get_at_def word_less_nat_alt)
    qed
    have rest: "densityValues_scan ev shs (nSig + ?n, basoff + ?n, ?bv1, ?sig1)
       = Some (nSig + ?n + of_nat (length ?E'),
               basoff + ?n + of_nat (basisCount shs),
               take (unat (nSig + ?n)) ?bv1 @ map fst ?E'
               @ drop (unat (nSig + ?n) + length ?E') ?bv1,
               take (unat (nSig + ?n)) ?sig1 @ map snd ?E'
               @ drop (unat (nSig + ?n) + length ?E') ?sig1)"
      by (rule Cons.IH [OF pre1 pre2 l2 ok])
    let ?E = "sigEntries ev basoff (sh # shs)"
    have lE: "length ?E = unat ?n + length ?E'" unfolding E using lz by (simp del: sigEntries.simps)
    have e1: "nSig + of_nat (length ?E) = nSig + ?n + of_nat (length ?E')"
      unfolding lE by simp
    have e3: "take (unat nSig) bv @ map fst ?E @ drop (unat nSig + length ?E) bv
        = take (unat (nSig + ?n)) ?bv1 @ map fst ?E'
          @ drop (unat (nSig + ?n) + length ?E') ?bv1"
      unfolding lE using fit lv un by (simp add: E mf ac_simps del: sigEntries.simps)
    have e4: "take (unat nSig) sig @ map snd ?E @ drop (unat nSig + length ?E) sig
        = take (unat (nSig + ?n)) ?sig1 @ map snd ?E'
          @ drop (unat (nSig + ?n) + length ?E') ?sig1"
      unfolding lE using fit un Cons.prems(3) by (simp add: E ms ac_simps del: sigEntries.simps)
    have lhs: "densityValues_scan ev (sh # shs) (nSig, basoff, bv, sig)
        = densityValues_scan ev shs (nSig + ?n, basoff + ?n, ?bv1, ?sig1)"
      using Some loop by simp
    show ?thesis unfolding lhs rest e1 e3 e4 cnt ..
  qed
qed

lemma unat_plus_of_nat:
  "unat off + i < 2 ^ 32 \<Longrightarrow> unat (off + of_nat i) = unat off + i" for off :: unsigned
  by (simp add: unat_word_ariths unat_of_nat take_bit_nat_eq_self)

lemma sigEntries_bounds:
  assumes "unat off + basisCount shs < 2 ^ 32" and "e \<in> set (sigEntries ev off shs)"
  shows "unat off \<le> unat (snd e) \<and> unat (snd e) < unat off + basisCount shs"
  using assms
proof (induction shs arbitrary: off)
  case Nil
  then show ?case by simp
next
  case (Cons sh shs)
  let ?n = "Shell_nBasis sh"
  have un: "unat (off + ?n) = unat off + unat ?n"
    using Cons.prems(1) by (simp add: unat_word_ariths)
  have pre: "unat (off + ?n) + basisCount shs < 2 ^ 32" using Cons.prems(1) un by simp
  have later: "unat off \<le> unat (snd e) \<and> unat (snd e) < unat off + basisCount (sh # shs)"
    if "e \<in> set (sigEntries ev (off + ?n) shs)"
    using Cons.IH [OF pre that] un by simp
  have here: "unat off \<le> unat (snd e) \<and> unat (snd e) < unat off + basisCount (sh # shs)"
    if "e \<in> set (zip vals (map (\<lambda>i. off + of_nat i) [0..<unat ?n]))" for vals
  proof -
    from that have "snd e \<in> set (map (\<lambda>i. off + of_nat i) [0..<unat ?n])"
      by (metis in_set_zipE prod.collapse)
    then obtain i where i: "i < unat ?n" "snd e = off + of_nat i" by auto
    have "unat off + i < 2 ^ 32" using Cons.prems(1) i(1) by simp
    then have "unat (snd e) = unat off + i" unfolding i(2) by (rule unat_plus_of_nat)
    then show ?thesis using i(1) by simp
  qed
  show ?case
  proof (cases "ev sh")
    case None
    then show ?thesis using Cons.prems(2) later by simp
  next
    case (Some vals)
    then show ?thesis using Cons.prems(2) later here [of vals] by auto
  qed
qed

lemma sigEntries_increasing:
  assumes "unat off + basisCount shs < 2 ^ 32"
  shows "sorted_wrt (<) (map snd (sigEntries ev off shs))"
  using assms
proof (induction shs arbitrary: off)
  case Nil
  then show ?case by simp
next
  case (Cons sh shs)
  let ?n = "Shell_nBasis sh"
  let ?ixs = "map (\<lambda>i. off + of_nat i) [0..<unat ?n]"
  have un: "unat (off + ?n) = unat off + unat ?n"
    using Cons.prems by (simp add: unat_word_ariths)
  have pre: "unat (off + ?n) + basisCount shs < 2 ^ 32" using Cons.prems un by simp
  have ui: "unat (off + of_nat i) = unat off + i" if "i < unat ?n" for i
    using Cons.prems that by (intro unat_plus_of_nat) simp
  have ixs: "sorted_wrt (<) ?ixs"
    by (simp add: sorted_wrt_map sorted_wrt_iff_nth_less word_less_nat_alt ui)
  have rest: "sorted_wrt (<) (map snd (sigEntries ev (off + ?n) shs))"
    by (rule Cons.IH [OF pre])
  have cross: "a < snd e" if "a \<in> set ?ixs" "e \<in> set (sigEntries ev (off + ?n) shs)" for a e
  proof -
    from that(1) obtain i where i: "i < unat ?n" "a = off + of_nat i" by auto
    have "unat a = unat off + i" unfolding i(2) using i(1) by (rule ui)
    moreover have "unat (off + ?n) \<le> unat (snd e)" using sigEntries_bounds [OF pre that(2)] by simp
    ultimately show ?thesis using i(1) un by (simp add: word_less_nat_alt)
  qed
  show ?case
  proof (cases "ev sh")
    case None
    then show ?thesis using rest by simp
  next
    case (Some vals)
    have tk: "map snd (zip vals ?ixs) = take (length vals) ?ixs"
      by (simp add: map_snd_zip_take min_def)
    have s1: "sorted_wrt (<) (map snd (zip vals ?ixs))"
      unfolding tk using ixs by (rule sorted_wrt_take)
    have "set (map snd (zip vals ?ixs)) \<subseteq> set ?ixs"
      unfolding tk by (rule set_take_subset)
    then have "\<forall>a\<in>set (map snd (zip vals ?ixs)). \<forall>e\<in>set (sigEntries ev (off + ?n) shs). a < snd e"
      using cross by blast
    then show ?thesis using Some s1 rest by (simp add: sorted_wrt_append)
  qed
qed

lemma triangle_mono: "n \<le> m \<Longrightarrow> triangle n \<le> triangle m"
  unfolding triangle_def by (intro div_le_mono mult_le_mono) simp_all

lemma triangle_Suc: "triangle (Suc n) = triangle n + Suc n"
  unfolding triangle_def by simp

lemma unat_rowOffset_le: "unat (rowOffset ii) \<le> triangle (unat ii)"
proof -
  have "unat (ii * (ii + 1)) \<le> unat ii * unat (ii + 1)"
    by (simp add: unat_word_ariths)
  also have "\<dots> \<le> unat ii * (unat ii + 1)"
    by (intro mult_le_mono) (simp_all add: unat_word_ariths)
  finally have "unat (ii * (ii + 1)) div 2 \<le> unat ii * (unat ii + 1) div 2"
    by (rule div_le_mono)
  then show ?thesis by (simp add: rowOffset_def triangle_def unat_div)
qed

lemma packed_offset_in_triangle:
  assumes "unat ii < n" and "jj \<le> ii"
  shows "unat (rowOffset ii + jj) < triangle n"
proof -
  have "unat (rowOffset ii + jj) \<le> unat (rowOffset ii) + unat jj"
    by (simp add: unat_word_ariths)
  also have "\<dots> \<le> triangle (unat ii) + unat ii"
    using unat_rowOffset_le [of ii] assms(2) by (simp add: word_le_nat_alt add_mono)
  also have "\<dots> < triangle (Suc (unat ii))" by (simp add: triangle_Suc)
  also have "\<dots> \<le> triangle n" using assms(1) by (intro triangle_mono) simp
  finally show ?thesis .
qed

lemma densityValues_scan_summary:
  assumes "resized sl" and "evaluate_ok ev (shells sl)"
  shows "densityValues_scan ev (shells sl) (0, 0, m_basisValues sl, m_sigBasis sl)
       = Some (of_nat (length (sigEntries ev 0 (shells sl))), nBasis sl,
               map fst (sigEntries ev 0 (shells sl))
               @ drop (length (sigEntries ev 0 (shells sl))) (m_basisValues sl),
               map snd (sigEntries ev 0 (shells sl))
               @ drop (length (sigEntries ev 0 (shells sl))) (m_sigBasis sl))"
proof -
  have bc: "basisCount (shells sl) < 2 ^ 32" using assms(1) by (simp add: resized_def)
  have n: "unat (nBasis sl) = basisCount (shells sl)" using bc by (rule unat_nBasis)
  have len: "length (m_basisValues sl) = basisCount (shells sl)"
    and len': "length (m_sigBasis sl) = length (m_basisValues sl)"
    using assms(1) n by (simp_all add: resized_def)
  have nb: "of_nat (basisCount (shells sl)) = nBasis sl"
    unfolding n [symmetric] by simp
  have "densityValues_scan ev (shells sl) (0, 0, m_basisValues sl, m_sigBasis sl)
       = Some (0 + of_nat (length (sigEntries ev 0 (shells sl))),
               0 + of_nat (basisCount (shells sl)),
               take (unat (0 :: unsigned)) (m_basisValues sl) @ map fst (sigEntries ev 0 (shells sl))
               @ drop (unat (0 :: unsigned) + length (sigEntries ev 0 (shells sl))) (m_basisValues sl),
               take (unat (0 :: unsigned)) (m_sigBasis sl) @ map snd (sigEntries ev 0 (shells sl))
               @ drop (unat (0 :: unsigned) + length (sigEntries ev 0 (shells sl))) (m_sigBasis sl))"
    using bc assms(2) len' by (intro densityValues_scan_result) (simp_all add: len)
  then show ?thesis by (simp add: nb)
qed

lemma sigEntries_facts:
  assumes "resized sl" and "evaluate_ok ev (shells sl)"
  shows "length (sigEntries ev 0 (shells sl)) \<le> unat (nBasis sl)"
    and "unat (of_nat (length (sigEntries ev 0 (shells sl))) :: unsigned)
          = length (sigEntries ev 0 (shells sl))"
    and "sorted_wrt (<) (map snd (sigEntries ev 0 (shells sl)))"
    and "e \<in> set (sigEntries ev 0 (shells sl)) \<Longrightarrow> snd e < nBasis sl"
proof -
  have bc: "basisCount (shells sl) < 2 ^ 32" using assms(1) by (simp add: resized_def)
  have n: "unat (nBasis sl) = basisCount (shells sl)" using bc by (rule unat_nBasis)
  show l: "length (sigEntries ev 0 (shells sl)) \<le> unat (nBasis sl)"
    using length_sigEntries [OF assms(2)] n by simp
  have "length (sigEntries ev 0 (shells sl)) < 2 ^ 32" using l n bc by simp
  then show "unat (of_nat (length (sigEntries ev 0 (shells sl))) :: unsigned)
          = length (sigEntries ev 0 (shells sl))"
    by (simp add: unat_of_nat take_bit_nat_eq_self)
  have z: "unat (0 :: unsigned) + basisCount (shells sl) < 2 ^ 32" using bc by simp
  show "sorted_wrt (<) (map snd (sigEntries ev 0 (shells sl)))"
    using z by (rule sigEntries_increasing)
  show "snd e < nBasis sl" if "e \<in> set (sigEntries ev 0 (shells sl))"
    using sigEntries_bounds [OF z that] n by (simp add: word_less_nat_alt)
qed

text \<open>
  C10. After the scan of \<^verbatim>\<open>densityValues(x, y, z)\<close> the first \<open>nSigBas\<close> elements of the
  buffer of significant indices are a strictly increasing sequence of global basis
  indices, each below \<open>nBasis\<close>, and \<open>nSigBas\<close> is at most \<open>nBasis\<close>. The scan returns, that
  is, every write into the buffer of basis values and into the buffer of significant
  indices is within the \<open>nBasis\<close> elements \<^verbatim>\<open>resize()\<close> allocated; and every offset
  \<open>Ti + jj\<close> read from a packed triangle, for significant entries \<open>j \<le> i\<close>, is below
  \<open>nBasis * (nBasis + 1) / 2\<close> (a natural number: \<open>Ti + jj\<close> is computed in \<^verbatim>\<open>unsigned\<close>
  arithmetic and is at most the offset in the triangle). The container is one whose
  buffers \<^verbatim>\<open>resize()\<close> has sized, for a basis count that an \<^verbatim>\<open>unsigned\<close> holds (\<open>resized\<close>),
  and \<^verbatim>\<open>evaluate\<close> returns null or one value per basis function of the shell.
\<close>

theorem densityValues_scan_in_bounds:
  fixes evaluate :: evaluate
  assumes "resized sl" and "evaluate_ok (\<lambda>sh. evaluate sh x y z) (shells sl)"
  shows "\<exists>nSigBas basoff bv sig.
      densityValues_scan (\<lambda>sh. evaluate sh x y z) (shells sl)
          (0, 0, m_basisValues sl, m_sigBasis sl) = Some (nSigBas, basoff, bv, sig)
      \<and> unat nSigBas \<le> unat (nBasis sl)
      \<and> length bv = unat (nBasis sl) \<and> length sig = unat (nBasis sl)
      \<and> sorted_wrt (<) (take (unat nSigBas) sig)
      \<and> (\<forall>ii\<in>set (take (unat nSigBas) sig). ii < nBasis sl)
      \<and> (\<forall>i<unat nSigBas. \<forall>j\<le>i.
            unat (rowOffset (sig ! i) + sig ! j) < triangle (unat (nBasis sl)))"
proof -
  let ?ev = "\<lambda>sh. evaluate sh x y z"
  let ?E = "sigEntries ?ev 0 (shells sl)"
  let ?bv = "map fst ?E @ drop (length ?E) (m_basisValues sl)"
  let ?sig = "map snd ?E @ drop (length ?E) (m_sigBasis sl)"
  note f = sigEntries_facts [OF assms]
  have lens: "length (m_basisValues sl) = unat (nBasis sl)" "length (m_sigBasis sl) = unat (nBasis sl)"
    using assms(1) by (simp_all add: resized_def)
  have scan: "densityValues_scan ?ev (shells sl) (0, 0, m_basisValues sl, m_sigBasis sl)
      = Some (of_nat (length ?E), nBasis sl, ?bv, ?sig)"
    using assms by (rule densityValues_scan_summary)
  have tk: "take (length ?E) ?sig = map snd ?E" by simp
  have nth: "?sig ! i = snd (?E ! i)" if "i < length ?E" for i
    using that by (simp add: nth_append)
  have tri: "unat (rowOffset (?sig ! i) + ?sig ! j) < triangle (unat (nBasis sl))"
    if "i < length ?E" "j \<le> i" for i j
  proof -
    have j: "j < length ?E" using that by simp
    have "snd (?E ! i) < nBasis sl" using f(4) [of "?E ! i"] that(1) by simp
    then have lt: "unat (snd (?E ! i)) < unat (nBasis sl)" by (simp add: word_less_nat_alt)
    have le: "snd (?E ! j) \<le> snd (?E ! i)"
    proof (cases "j = i")
      case True
      then show ?thesis by simp
    next
      case False
      then have "j < i" using that(2) by simp
      then have "map snd ?E ! j < map snd ?E ! i"
        using f(3) that(1) by (simp add: sorted_wrt_iff_nth_less)
      then show ?thesis using that(1) j by simp
    qed
    show ?thesis unfolding nth [OF that(1)] nth [OF j]
      using lt le by (rule packed_offset_in_triangle)
  qed
  have "unat (of_nat (length ?E) :: unsigned) \<le> unat (nBasis sl)
      \<and> length ?bv = unat (nBasis sl) \<and> length ?sig = unat (nBasis sl)
      \<and> sorted_wrt (<) (take (unat (of_nat (length ?E) :: unsigned)) ?sig)
      \<and> (\<forall>ii\<in>set (take (unat (of_nat (length ?E) :: unsigned)) ?sig). ii < nBasis sl)
      \<and> (\<forall>i<unat (of_nat (length ?E) :: unsigned). \<forall>j\<le>i.
            unat (rowOffset (?sig ! i) + ?sig ! j) < triangle (unat (nBasis sl)))"
    unfolding f(2) tk using f(1) f(3) f(4) lens tri by auto
  with scan show ?thesis by blast
qed

subsection \<open>The density\<close>

lemma zero_loop:
  fixes dv :: "double list"
  assumes "length dv = unat n"
  shows "for_loop 0 n (\<lambda>k dv. put_at dv k 0) dv = Some (replicate (unat n) 0)"
proof -
  define Inv where "Inv k d \<longleftrightarrow> d = replicate (unat k) 0 @ drop (unat k) dv"
    for k :: unsigned and d :: "double list"
  have "\<exists>t. for_loop 0 n (\<lambda>k dv. put_at dv k 0) dv = Some t \<and> Inv n t"
  proof (rule for_loop_from_zero)
    show "Inv 0 dv" by (simp add: Inv_def)
  next
    fix k t
    assume k: "k < n" and inv: "Inv k t"
    have kn: "unat k < length dv" using k assms by (simp add: word_less_nat_alt)
    have k1: "unat (k + 1) = Suc (unat k)" using k by (rule unat_inc)
    have t: "t = replicate (unat k) 0 @ drop (unat k) dv" using inv by (simp add: Inv_def)
    have lt: "length t = length dv" unfolding t using kn by simp
    have "t[unat k := 0] = replicate (Suc (unat k)) 0 @ drop (Suc (unat k)) dv"
      unfolding t
      using window_update [of 0 "unat k" dv "replicate (unat k) 0" 0] kn
      by (simp add: replicate_append_same)
    then have "put_at t k 0 = Some (replicate (Suc (unat k)) 0 @ drop (Suc (unat k)) dv)"
      using kn lt by (simp add: put_at_def)
    then show "\<exists>t'. put_at t k 0 = Some t' \<and> Inv (k + 1) t'" by (simp add: Inv_def k1)
  qed
  then show ?thesis using assms by (auto simp: Inv_def)
qed

lemma densityValues_add_result:
  assumes len: "length Ds = unat nden" and idx: "\<forall>D\<in>set Ds. unat idx < length D"
  shows "densityValues_add Ds nden c idx (map g Ds) = Some (map (\<lambda>D. g D + c * D ! unat idx) Ds)"
proof -
  let ?f = "\<lambda>D. g D + c * D ! unat idx"
  let ?body = "\<lambda>k dv. do {
          D \<leftarrow> get_at Ds k;
          d \<leftarrow> get_at D idx;
          cur \<leftarrow> get_at dv k;
          put_at dv k (cur + c * d)
        }"
  define Inv where "Inv k d \<longleftrightarrow> d = map ?f (take (unat k) Ds) @ map g (drop (unat k) Ds)"
    for k :: unsigned and d :: "double list"
  have "\<exists>t. for_loop 0 nden ?body (map g Ds) = Some t \<and> Inv nden t"
  proof (rule for_loop_from_zero)
    show "Inv 0 (map g Ds)" by (simp add: Inv_def)
  next
    fix k t
    assume k: "k < nden" and inv: "Inv k t"
    have kn: "unat k < length Ds" using k len by (simp add: word_less_nat_alt)
    have k1: "unat (k + 1) = Suc (unat k)" using k by (rule unat_inc)
    have t: "t = map ?f (take (unat k) Ds) @ map g (drop (unat k) Ds)"
      using inv by (simp add: Inv_def)
    have lt: "length t = length Ds" unfolding t by simp
    have cur: "t ! unat k = g (Ds ! unat k)" unfolding t using kn by (simp add: nth_append)
    have D: "unat idx < length (Ds ! unat k)" using idx kn by simp
    have dr: "drop (unat k) Ds = Ds ! unat k # drop (Suc (unat k)) Ds"
      using kn by (simp add: Cons_nth_drop_Suc)
    have upd: "t[unat k := ?f (Ds ! unat k)]
        = map ?f (take (Suc (unat k)) Ds) @ map g (drop (Suc (unat k)) Ds)"
      unfolding t using kn by (simp add: list_update_append take_Suc_conv_app_nth dr)
    have "?body k t = Some (t[unat k := ?f (Ds ! unat k)])"
      using kn lt cur D by (simp add: get_at_def put_at_def)
    then show "\<exists>t'. ?body k t = Some t' \<and> Inv (k + 1) t'"
      unfolding upd by (simp add: Inv_def k1)
  qed
  then show ?thesis using len by (auto simp: Inv_def densityValues_add_def)
qed

lemma accumulate_loop:
  fixes Ds :: "'a list" and g :: "'a \<Rightarrow> double" and t :: "nat \<Rightarrow> 'a \<Rightarrow> double"
  assumes "\<And>k g. k < n \<Longrightarrow> body k (map g Ds) = Some (map (\<lambda>D. g D + t (unat k) D) Ds)"
  shows "for_loop 0 n body (map g Ds) = Some (map (\<lambda>D. g D + (\<Sum>k\<leftarrow>[0..<unat n]. t k D)) Ds)"
proof -
  define Inv where "Inv k d \<longleftrightarrow> d = map (\<lambda>D. g D + (\<Sum>k'\<leftarrow>[0..<unat k]. t k' D)) Ds"
    for k :: unsigned and d :: "double list"
  have "\<exists>r. for_loop 0 n body (map g Ds) = Some r \<and> Inv n r"
  proof (rule for_loop_from_zero)
    show "Inv 0 (map g Ds)" by (simp add: Inv_def)
  next
    fix k r
    assume k: "k < n" and inv: "Inv k r"
    have k1: "unat (k + 1) = Suc (unat k)" using k by (rule unat_inc)
    have "body k r = Some (map (\<lambda>D. g D + (\<Sum>k'\<leftarrow>[0..<unat k]. t k' D) + t (unat k) D) Ds)"
      using inv assms [OF k] by (simp add: Inv_def)
    then show "\<exists>r'. body k r = Some r' \<and> Inv (k + 1) r'"
      by (simp add: Inv_def k1 add.assoc)
  qed
  then show ?thesis by (auto simp: Inv_def)
qed

text \<open>
  What \<^verbatim>\<open>densityValues(x, y, z)\<close> returns, for a container whose buffers \<^verbatim>\<open>resize()\<close> has
  sized, an \<^verbatim>\<open>evaluate\<close> that returns null or one value per basis function of the shell, and
  density matrices that hold a packed triangle of \<open>nBasis\<close> rows: the significant values
  and indices at the front of the two buffers and, for each matrix, the sum
  \<open>densityValues_sum\<close> over the significant entries, started from zero whatever the output
  buffer held.
\<close>

lemma densityValues_result:
  assumes rs: "resized sl" and ev: "evaluate_ok (\<lambda>sh. evaluate sh x y z) (shells sl)"
    and ds: "densities_ok sl"
  shows "densityValues evaluate sl x y z
       = Some (sl\<lparr>m_basisValues := map fst (sigEntries (\<lambda>sh. evaluate sh x y z) 0 (shells sl))
                    @ drop (length (sigEntries (\<lambda>sh. evaluate sh x y z) 0 (shells sl)))
                        (m_basisValues sl),
                  m_sigBasis := map snd (sigEntries (\<lambda>sh. evaluate sh x y z) 0 (shells sl))
                    @ drop (length (sigEntries (\<lambda>sh. evaluate sh x y z) 0 (shells sl)))
                        (m_sigBasis sl),
                  m_densityValues := map (densityValues_sum (sigEntries (\<lambda>sh. evaluate sh x y z) 0 (shells sl)))
                        (m_densityVectors sl)\<rparr>)"
proof -
  define E where "E = sigEntries (\<lambda>sh. evaluate sh x y z) 0 (shells sl)"
  define Ds where "Ds = m_densityVectors sl"
  define nden where "nden = usize Ds"
  define bv where "bv = map fst E @ drop (length E) (m_basisValues sl)"
  define sig where "sig = map snd E @ drop (length E) (m_sigBasis sl)"
  define nSig :: unsigned where "nSig = of_nat (length E)"
  define offd where "offd i j D = 2 * (2 * fst (E ! i) * fst (E ! j))
      * D ! unat (rowOffset (snd (E ! i)) + snd (E ! j))" for i j and D :: "double list"
  define diag where "diag i D = fst (E ! i) * fst (E ! i)
      * D ! unat (rowOffset (snd (E ! i)) + snd (E ! i))" for i and D :: "double list"
  define row where "row i D = (\<Sum>j\<leftarrow>[0..<i]. offd i j D) + diag i D" for i D
  note f = sigEntries_facts [OF rs ev, folded E_def]
  have scan: "densityValues_scan (\<lambda>sh. evaluate sh x y z) (shells sl)
      (0, 0, m_basisValues sl, m_sigBasis sl) = Some (nSig, nBasis sl, bv, sig)"
    unfolding nSig_def bv_def sig_def E_def using rs ev by (rule densityValues_scan_summary)
  have unSig: "unat nSig = length E" unfolding nSig_def by (rule f(2))
  have lenD: "length Ds = unat nden"
    using ds by (simp add: densities_ok_def QList_ok_def nden_def usize_def Ds_def
        unat_of_nat take_bit_nat_eq_self)
  have lendv: "length (m_densityValues sl) = unat nden"
    using ds lenD by (simp add: densities_ok_def Ds_def)
  have big: "\<forall>D\<in>set Ds. triangle (unat (nBasis sl)) \<le> length D"
    using ds by (simp add: densities_ok_def Ds_def list_all_iff)
  have bvn: "get_at bv i = Some (fst (E ! unat i))" if "i < nSig" for i
    using that unSig by (simp add: get_at_def bv_def nth_append word_less_nat_alt)
  have sgn: "get_at sig i = Some (snd (E ! unat i))" if "i < nSig" for i
    using that unSig by (simp add: get_at_def sig_def nth_append word_less_nat_alt)
  have inb: "\<forall>D\<in>set Ds. unat (rowOffset (snd (E ! i)) + snd (E ! j)) < length D"
    if "i < length E" "j \<le> i" for i j
  proof -
    have j: "j < length E" using that by simp
    have "snd (E ! i) < nBasis sl" using f(4) [of "E ! i"] that(1) by simp
    then have lt: "unat (snd (E ! i)) < unat (nBasis sl)" by (simp add: word_less_nat_alt)
    have le: "snd (E ! j) \<le> snd (E ! i)"
    proof (cases "j = i")
      case True
      then show ?thesis by simp
    next
      case False
      then have "j < i" using that(2) by simp
      then have "map snd E ! j < map snd E ! i"
        using f(3) that(1) by (simp add: sorted_wrt_iff_nth_less)
      then show ?thesis using that(1) j by simp
    qed
    have "unat (rowOffset (snd (E ! i)) + snd (E ! j)) < triangle (unat (nBasis sl))"
      using lt le by (rule packed_offset_in_triangle)
    then show ?thesis using big by fastforce
  qed
  have zero: "for_loop 0 nden (\<lambda>k dv. put_at dv k 0) (m_densityValues sl)
      = Some (map (\<lambda>D. 0) Ds)"
    using zero_loop [OF lendv] lenD by (simp add: map_replicate_const)
  let ?jbody = "\<lambda>xi Ti j dv. do {
                  bj \<leftarrow> get_at bv j;
                  let xij = 2 * xi * bj;
                  jj \<leftarrow> get_at sig j;
                  densityValues_add Ds nden (2 * xij) (Ti + jj) dv
                }"
  let ?ibody = "\<lambda>i dv. do {
                  xi \<leftarrow> get_at bv i;
                  ii \<leftarrow> get_at sig i;
                  let Ti = (ii * (ii + 1)) div 2;
                  dv1 \<leftarrow> for_loop 0 i (?jbody xi Ti) dv;
                  densityValues_add Ds nden (xi * xi) (Ti + ii) dv1
                }"
  have istep: "?ibody i (map g Ds) = Some (map (\<lambda>D. g D + row (unat i) D) Ds)"
    if i: "i < nSig" for i and g :: "double list \<Rightarrow> double"
  proof -
    have iE: "unat i < length E" using i unSig by (simp add: word_less_nat_alt)
    let ?xi = "fst (E ! unat i)" and ?ii = "snd (E ! unat i)"
    have jstep: "?jbody ?xi (rowOffset ?ii) j (map h Ds)
        = Some (map (\<lambda>D. h D + offd (unat i) (unat j) D) Ds)"
      if j: "j < i" for j and h :: "double list \<Rightarrow> double"
    proof -
      have jn: "j < nSig" using j i by simp
      have ji: "unat j \<le> unat i" using j by (simp add: word_less_nat_alt)
      show ?thesis
        using densityValues_add_result [OF lenD inb [OF iE ji],
            of "2 * (2 * ?xi * fst (E ! unat j))" h]
        by (simp add: bvn [OF jn] sgn [OF jn] offd_def)
    qed
    have jloop: "for_loop 0 i (?jbody ?xi (rowOffset ?ii)) (map g Ds)
        = Some (map (\<lambda>D. g D + (\<Sum>j\<leftarrow>[0..<unat i]. offd (unat i) j D)) Ds)"
      by (rule accumulate_loop) (rule jstep)
    have dg: "densityValues_add Ds nden (?xi * ?xi) (rowOffset ?ii + ?ii)
          (map (\<lambda>D. g D + (\<Sum>j\<leftarrow>[0..<unat i]. offd (unat i) j D)) Ds)
        = Some (map (\<lambda>D. g D + (\<Sum>j\<leftarrow>[0..<unat i]. offd (unat i) j D) + diag (unat i) D) Ds)"
      using densityValues_add_result [OF lenD inb [OF iE order_refl], of "?xi * ?xi"]
      by (simp add: diag_def)
    show ?thesis
      using jloop dg
      by (simp add: bvn [OF i] sgn [OF i] rowOffset_def [symmetric] row_def add.assoc)
  qed
  have main: "for_loop 0 nSig ?ibody (map (\<lambda>D. 0) Ds)
      = Some (map (\<lambda>D. 0 + (\<Sum>i\<leftarrow>[0..<unat nSig]. row i D)) Ds)"
    by (rule accumulate_loop) (rule istep)
  have form: "(\<Sum>i\<leftarrow>[0..<length E]. row i D) = densityValues_sum E D" for D
    by (simp add: densityValues_sum_def row_def offd_def diag_def)
  have main': "for_loop 0 nSig ?ibody (map (\<lambda>D. 0) Ds) = Some (map (densityValues_sum E) Ds)"
    unfolding main unSig by (simp add: form)
  show ?thesis
    unfolding densityValues_def
    using scan zero main'
    by (simp add: E_def [symmetric] Ds_def [symmetric] nden_def [symmetric] bv_def sig_def)
qed

text \<open>
  For a global index below \<open>2 ^ 16\<close> the product \<open>ii * (ii + 1)\<close> does not wrap around, so the
  offsets computed in \<^verbatim>\<open>unsigned\<close> are the offsets of the packed triangle.
\<close>

lemma unat_packed_offset:
  assumes "unat ii < 2 ^ 16" and "jj \<le> ii"
  shows "unat (rowOffset ii + jj) = triangle (unat ii) + unat jj"
proof -
  have "unat ii * (unat ii + 1) \<le> (2 ^ 16 - 1) * 2 ^ 16"
    using assms(1) by (intro mult_le_mono) simp_all
  then have m: "unat ii * (unat ii + 1) \<le> 4294901760" by simp
  then have m': "unat ii * (unat ii + 1) < 2 ^ 32" by simp
  have n1: "unat (ii + 1) = unat ii + 1" using assms(1) by (simp add: unat_word_ariths)
  have "unat (ii * (ii + 1)) = (unat ii * unat (ii + 1)) mod 2 ^ 32"
    by (simp add: unat_word_ariths)
  also have "\<dots> = unat ii * (unat ii + 1)" unfolding n1 using m' by (rule mod_less)
  finally have "unat (ii * (ii + 1)) = unat ii * (unat ii + 1)" .
  then have r: "unat (rowOffset ii) = triangle (unat ii)"
    by (simp add: rowOffset_def unat_div triangle_def)
  have "triangle (unat ii) \<le> 2147450880" using m by (simp add: triangle_def)
  moreover have "unat jj < 2 ^ 16" using assms by (simp add: word_le_nat_alt)
  ultimately have s: "triangle (unat ii) + unat jj < 2 ^ 32" by simp
  have "unat (rowOffset ii + jj) = (unat (rowOffset ii) + unat jj) mod 2 ^ 32"
    by (simp add: unat_word_ariths)
  also have "\<dots> = triangle (unat ii) + unat jj" unfolding r using s by (rule mod_less)
  finally show ?thesis .
qed

lemma densityValues_sum_packed:
  assumes inc: "sorted_wrt (<) (map snd E)" and small: "\<forall>e\<in>set E. unat (snd e) < 2 ^ 16"
  shows "densityValues_sum E D = densityForm E D"
proof -
  have off: "unat (rowOffset (snd (E ! i)) + snd (E ! j))
      = triangle (unat (snd (E ! i))) + unat (snd (E ! j))" if "i < length E" "j \<le> i" for i j
  proof -
    have "snd (E ! j) \<le> snd (E ! i)"
    proof (cases "j = i")
      case True
      then show ?thesis by simp
    next
      case False
      then have "j < i" using that(2) by simp
      then have "map snd E ! j < map snd E ! i"
        using inc that(1) by (simp add: sorted_wrt_iff_nth_less)
      then show ?thesis using that by simp
    qed
    moreover have "unat (snd (E ! i)) < 2 ^ 16" using small that(1) by simp
    ultimately show ?thesis by (simp add: unat_packed_offset)
  qed
  have row: "(\<Sum>j\<leftarrow>[0..<i]. 2 * (2 * fst (E ! i) * fst (E ! j))
                * D ! unat (rowOffset (snd (E ! i)) + snd (E ! j)))
      = (\<Sum>j\<leftarrow>[0..<i]. 2 * (2 * fst (E ! i) * fst (E ! j))
                * D ! (triangle (unat (snd (E ! i))) + unat (snd (E ! j))))"
    if "i < length E" for i
    by (rule arg_cong [where f = sum_list], rule map_cong) (simp_all add: off [OF that])
  show ?thesis
    unfolding densityValues_sum_def densityForm_def
  proof (rule arg_cong [where f = sum_list], rule map_cong [OF refl])
    fix i
    assume "i \<in> set [0..<length E]"
    then have i: "i < length E" by simp
    show "(\<Sum>j\<leftarrow>[0..<i]. 2 * (2 * fst (E ! i) * fst (E ! j))
                * D ! unat (rowOffset (snd (E ! i)) + snd (E ! j)))
          + fst (E ! i) * fst (E ! i) * D ! unat (rowOffset (snd (E ! i)) + snd (E ! i))
        = (\<Sum>j\<leftarrow>[0..<i]. 2 * (2 * fst (E ! i) * fst (E ! j))
                * D ! (triangle (unat (snd (E ! i))) + unat (snd (E ! j))))
          + fst (E ! i) * fst (E ! i) * D ! (triangle (unat (snd (E ! i))) + unat (snd (E ! i)))"
      unfolding row [OF i] off [OF i order_refl] ..
  qed
qed

text \<open>
  For a container of at most \<open>2 ^ 16\<close> basis functions \<^verbatim>\<open>densityValues(x, y, z)\<close> returns, for
  each matrix \<open>D\<close>, the quadratic form over the significant entries: with \<open>x\<^sub>i\<close> the \<open>i\<close>-th
  significant value, \<open>ii\<close> its global basis index and \<open>Ti = ii * (ii + 1) / 2\<close>, the sum
  over the significant \<open>i\<close> of \<open>2 * (2 * x\<^sub>i * x\<^sub>j) * D[Ti + jj]\<close> for every significant
  \<open>j < i\<close> and of \<open>x\<^sub>i * x\<^sub>i * D[Ti + ii]\<close>. A shell that evaluates to null has no entry in
  the sum and advances the global index by its number of basis functions (\<open>sigEntries\<close>).
\<close>

lemma densityValues_packed_form:
  assumes rs: "resized sl" and ev: "evaluate_ok (\<lambda>sh. evaluate sh x y z) (shells sl)"
    and ds: "densities_ok sl" and small: "unat (nBasis sl) \<le> 2 ^ 16"
  shows "densityValues evaluate sl x y z
       = Some (sl\<lparr>m_basisValues := map fst (sigEntries (\<lambda>sh. evaluate sh x y z) 0 (shells sl))
                    @ drop (length (sigEntries (\<lambda>sh. evaluate sh x y z) 0 (shells sl)))
                        (m_basisValues sl),
                  m_sigBasis := map snd (sigEntries (\<lambda>sh. evaluate sh x y z) 0 (shells sl))
                    @ drop (length (sigEntries (\<lambda>sh. evaluate sh x y z) 0 (shells sl)))
                        (m_sigBasis sl),
                  m_densityValues := map (densityForm (sigEntries (\<lambda>sh. evaluate sh x y z) 0 (shells sl)))
                        (m_densityVectors sl)\<rparr>)"
proof -
  note f = sigEntries_facts [OF rs ev]
  have "\<forall>e\<in>set (sigEntries (\<lambda>sh. evaluate sh x y z) 0 (shells sl)). unat (snd e) < 2 ^ 16"
  proof
    fix e
    assume "e \<in> set (sigEntries (\<lambda>sh. evaluate sh x y z) 0 (shells sl))"
    then have "unat (snd e) < unat (nBasis sl)" using f(4) by (simp add: word_less_nat_alt)
    then show "unat (snd e) < 2 ^ 16" using small by linarith
  qed
  then have "densityValues_sum (sigEntries (\<lambda>sh. evaluate sh x y z) 0 (shells sl))
      = densityForm (sigEntries (\<lambda>sh. evaluate sh x y z) 0 (shells sl))"
    using f(3) by (intro ext densityValues_sum_packed)
  then show ?thesis using densityValues_result [of sl evaluate x y z, OF rs ev ds] by simp
qed

lemma densityExample_eq:
  "densityExample = (emptyBuffers [shellOn S 0, shellOn P 0, shellOn S 1])
     \<lparr>m_nBasis := 5, m_basisValues := replicate 5 0, m_sigBasis := replicate 5 0,
      m_basisPairValues := replicate 15 0,
      m_densityVectors := [[1, 2, 3, 4, 5, 6, 7, 8, 9, 10, 11, 12, 13, 14, 15]],
      m_densityValues := [0]\<rparr>"
  by (simp add: densityExample_def setDensityVectors_def resize_def Let_def nBasis_def
      emptyBuffers_def shellOn_def Shell_nBasis_def Vector_resize_def usize_def)

lemma densityExample_ok:
  "resized densityExample"
  "evaluate_ok (\<lambda>sh. exampleEvaluate sh x y z) (shells densityExample)"
  "densities_ok densityExample"
  unfolding densityExample_eq
  by (simp_all add: resized_def densities_ok_def QList_ok_def triangle_def nBasis_def basisCount_def
      emptyBuffers_def shellOn_def Shell_nBasis_def exampleEvaluate_def)

lemma unitExample_eq:
  "unitExample = (emptyBuffers [shellOn S 0])
     \<lparr>m_nBasis := 1, m_basisValues := [0], m_sigBasis := [0], m_basisPairValues := [0],
      m_densityVectors := [[1]], m_densityValues := [0]\<rparr>"
  by (simp add: unitExample_def setDensityVectors_def resize_def Let_def nBasis_def
      emptyBuffers_def shellOn_def Shell_nBasis_def Vector_resize_def usize_def)

lemma unitExample_ok:
  "resized unitExample"
  "evaluate_ok (\<lambda>sh. exampleEvaluate sh x y z) (shells unitExample)"
  "densities_ok unitExample"
  unfolding unitExample_eq
  by (simp_all add: resized_def densities_ok_def QList_ok_def triangle_def nBasis_def basisCount_def
      emptyBuffers_def shellOn_def Shell_nBasis_def exampleEvaluate_def)

lemma densityExample_small:
  "unat (nBasis densityExample) \<le> 2 ^ 16" "unat (nBasis unitExample) \<le> 2 ^ 16"
  by (simp_all add: densityExample_eq unitExample_eq nBasis_def emptyBuffers_def shellOn_def
      Shell_nBasis_def)

text \<open>
  At the point \<open>(-1, 2, 3)\<close> the P shell of the container of three shells is not
  significant, at \<open>(1, 2, 3)\<close> all five basis functions are.
\<close>

lemma densityValues_packed_form_example:
  "densityValues exampleEvaluate densityExample (- 1) 2 3
     = Some (densityExample\<lparr>m_basisValues := [1, 1, 0, 0, 0], m_sigBasis := [0, 4, 0, 0, 0],
                            m_densityValues := [60]\<rparr>)
   \<and> densityValues exampleEvaluate densityExample 1 2 3
     = Some (densityExample\<lparr>m_basisValues := [3, 1, 2, 3, 3], m_sigBasis := [0, 1, 2, 3, 4],
                            m_densityValues := [2341]\<rparr>)
   \<and> densityValues exampleEvaluate unitExample 3 0 0
     = Some (unitExample\<lparr>m_basisValues := [5], m_sigBasis := [0], m_densityValues := [5 * 5]\<rparr>)"
proof -
  have E1: "sigEntries (\<lambda>sh. exampleEvaluate sh (- 1) 2 3) 0 (shells densityExample)
      = [(1, 0), (1, 4)]"
    by (simp add: densityExample_eq emptyBuffers_def shellOn_def Shell_nBasis_def exampleEvaluate_def)
  have E2: "sigEntries (\<lambda>sh. exampleEvaluate sh 1 2 3) 0 (shells densityExample)
      = [(3, 0), (1, 1), (2, 2), (3, 3), (3, 4)]"
    by (simp add: densityExample_eq emptyBuffers_def shellOn_def Shell_nBasis_def exampleEvaluate_def
        upt_conv_Cons)
  have E3: "sigEntries (\<lambda>sh. exampleEvaluate sh 3 0 0) 0 (shells unitExample) = [(5, 0)]"
    by (simp add: unitExample_eq emptyBuffers_def shellOn_def Shell_nBasis_def exampleEvaluate_def)
  have F1: "densityForm [(1, 0), (1, 4)] [1, 2, 3, 4, 5, 6, 7, 8, 9, 10, 11, 12, 13, 14, 15] = 60"
    by (simp add: densityForm_def triangle_def upt_rec [of 0] upt_rec [of 1] upt_rec [of 2])
  have F2: "densityForm [(3, 0), (1, 1), (2, 2), (3, 3), (3, 4)]
      [1, 2, 3, 4, 5, 6, 7, 8, 9, 10, 11, 12, 13, 14, 15] = 2341"
    by code_simp
  have F3: "densityForm [(5, 0)] [1] = 5 * 5"
    by (simp add: densityForm_def triangle_def)
  have D: "m_densityVectors densityExample = [[1, 2, 3, 4, 5, 6, 7, 8, 9, 10, 11, 12, 13, 14, 15]]"
    "m_basisValues densityExample = replicate 5 0" "m_sigBasis densityExample = replicate 5 0"
    by (simp_all add: densityExample_eq)
  have U: "m_densityVectors unitExample = [[1]]"
    "m_basisValues unitExample = [0]" "m_sigBasis unitExample = [0]"
    by (simp_all add: unitExample_eq)
  from densityValues_packed_form [of densityExample exampleEvaluate "- 1" 2 3,
      OF densityExample_ok densityExample_small(1)]
    densityValues_packed_form [of densityExample exampleEvaluate 1 2 3,
      OF densityExample_ok densityExample_small(1)]
    densityValues_packed_form [of unitExample exampleEvaluate 3 0 0,
      OF unitExample_ok densityExample_small(2)]
  show ?thesis unfolding E1 E2 E3 D U by (simp add: F1 F2 F3 replicate_numeral)
qed

text \<open>
  From \<open>2 ^ 16\<close> on the product \<open>ii * (ii + 1)\<close> wraps around. In the container of 65537
  basis functions the only significant basis function has the global index 65536.
\<close>

lemma sigEntries_append:
  "sigEntries ev off (xs @ ys)
     = sigEntries ev off xs @ sigEntries ev (off + of_nat (basisCount xs)) ys"
  by (induction xs arbitrary: off) (simp_all add: add.assoc)

lemma sigEntries_null:
  "list_all (\<lambda>sh. ev sh = None) xs \<Longrightarrow> sigEntries ev off xs = []"
  by (induction xs arbitrary: off) simp_all

lemma basisCount_replicate: "basisCount (replicate n sh) = n * unat (Shell_nBasis sh)"
  by (simp add: basisCount_def sum_list_replicate)

lemma resized_setDensityVectors: "resized (setDensityVectors sl Ds) = resized sl"
  by (simp add: resized_def setDensityVectors_def nBasis_def)

lemma overflowShells_count: "basisCount overflowShells = 65537"
  by (simp add: overflowShells_def basisCount_replicate shellOn_def Shell_nBasis_def)

lemma overflowExample_shells: "shells overflowExample = overflowShells"
  by (simp add: overflowExample_def setDensityVectors_def resize_shells emptyBuffers_def)

lemma overflowExample_nBasis: "unat (nBasis overflowExample) = 65537"
  using unat_nBasis [of overflowExample] by (simp add: overflowExample_shells overflowShells_count)

lemma overflowExample_ok:
  "resized overflowExample"
  "evaluate_ok (\<lambda>sh. overflowEvaluate sh x y z) (shells overflowExample)"
  "densities_ok overflowExample"
proof -
  show "resized overflowExample"
    unfolding overflowExample_def resized_setDensityVectors
    by (rule resize_resized) (simp add: emptyBuffers_def overflowShells_count)
  show "evaluate_ok (\<lambda>sh. overflowEvaluate sh x y z) (shells overflowExample)"
    unfolding overflowExample_shells
    by (simp add: overflowShells_def evaluate_ok_def overflowEvaluate_def shellOn_def list_all_iff)
  have "m_densityVectors overflowExample = [overflowDensity]"
    "length (m_densityValues overflowExample) = 1"
    by (simp_all add: overflowExample_def setDensityVectors_def Vector_resize_def usize_def)
  moreover have "triangle 65537 \<le> length overflowDensity"
    by (simp add: triangle_def overflowDensity_def)
  ultimately show "densities_ok overflowExample"
    by (simp add: densities_ok_def QList_ok_def overflowExample_nBasis)
qed

lemma overflowExample_entries:
  "sigEntries (\<lambda>sh. overflowEvaluate sh x y z) 0 (shells overflowExample) = [(1, 65536)]"
proof -
  have "sigEntries (\<lambda>sh. overflowEvaluate sh x y z) 0 (replicate 4369 (shellOn G15 0)) = []"
    by (rule sigEntries_null) (simp add: list_all_iff overflowEvaluate_def shellOn_def)
  then show ?thesis
    unfolding overflowExample_shells overflowShells_def sigEntries_append
    by (simp add: basisCount_replicate overflowEvaluate_def shellOn_def Shell_nBasis_def)
qed

text \<open>
  C1. \<^verbatim>\<open>densityValues(x, y, z)\<close> is to return, for each packed density matrix \<open>D\<close> bound to
  the container, the quadratic form over the significant basis functions, with the row of
  the global index \<open>ii\<close> at the offset \<open>Ti = ii * (ii + 1) / 2\<close>. The code computes \<open>Ti\<close> in
  \<^verbatim>\<open>unsigned\<close>, and from the global index \<open>2 ^ 16\<close> on the product wraps around. For the
  container of 65537 basis functions whose only significant basis function has the global
  index 65536 and the value 1, bound to a packed density matrix of 65537 rows that is 1
  at the offset 98304 and 0 elsewhere, \<^verbatim>\<open>densityValues\<close> returns 1: it reads the matrix at
  \<open>32768 + 65536 = 98304\<close>. The quadratic form is 0: the diagonal element of row 65536 is
  at the offset \<open>2147516416 + 65536 = 2147581952\<close>.
\<close>

theorem densityValues_overflow:
  "map_option m_densityValues (densityValues overflowEvaluate overflowExample 0 0 0) = Some [1]
   \<and> unat (nBasis overflowExample) = 65537
   \<and> m_densityVectors overflowExample = [overflowDensity]
   \<and> length overflowDensity = triangle 65537
   \<and> sigEntries (\<lambda>sh. overflowEvaluate sh 0 0 0) 0 (shells overflowExample) = [(1, 65536)]
   \<and> unat (rowOffset 65536 + 65536) = 98304
   \<and> triangle 65536 + 65536 = 2147581952
   \<and> densityForm [(1, 65536)] overflowDensity = 0"
proof -
  have D: "m_densityVectors overflowExample = [overflowDensity]"
    by (simp add: overflowExample_def setDensityVectors_def)
  have off: "unat (rowOffset 65536 + 65536) = 98304" by (simp add: rowOffset_def)
  have c: "densityValues_sum [(1, 65536)] overflowDensity = 1"
    by (simp add: densityValues_sum_def off overflowDensity_def nth_append)
  have t: "triangle 65536 + 65536 = 2147581952" by (simp add: triangle_def)
  have "overflowDensity ! 2147581952 = 0"
    by (simp add: overflowDensity_def nth_append)
  then have p: "densityForm [(1, 65536)] overflowDensity = 0"
    by (simp add: densityForm_def t)
  have l: "length overflowDensity = triangle 65537"
    by (simp add: triangle_def overflowDensity_def)
  from densityValues_result [of overflowExample overflowEvaluate 0 0 0, OF overflowExample_ok]
  have "map_option m_densityValues (densityValues overflowEvaluate overflowExample 0 0 0) = Some [1]"
    unfolding overflowExample_entries D by (simp add: c)
  with overflowExample_nBasis D l overflowExample_entries off t p show ?thesis by blast
qed

theorem densityValues_scan_in_bounds_witness:
  "densityValues_scan (\<lambda>sh. exampleEvaluate sh (- 1) 2 3) (shells densityExample)
       (0, 0, m_basisValues densityExample, m_sigBasis densityExample)
     = Some (2, 5, [1, 1, 0, 0, 0], [0, 4, 0, 0, 0])
   \<and> nBasis densityExample = 5
   \<and> sorted_wrt (<) (take (unat (2 :: unsigned)) [0, 4, 0, 0, 0 :: unsigned])
   \<and> unat (rowOffset ([0, 4, 0, 0, 0] ! 1) + [0, 4, 0, 0, 0] ! 1) < triangle (unat (nBasis densityExample))"
proof -
  have val: "densityValues_scan (\<lambda>sh. exampleEvaluate sh (- 1) 2 3) (shells densityExample)
       (0, 0, m_basisValues densityExample, m_sigBasis densityExample)
     = Some (2, 5, [1, 1, 0, 0, 0], [0, 4, 0, 0, 0])"
    unfolding densityExample_eq
    by (simp add: emptyBuffers_def shellOn_def Shell_nBasis_def exampleEvaluate_def
        for_loop.simps get_at_def put_at_def replicate_numeral)
  have n: "nBasis densityExample = 5"
    by (simp add: densityExample_eq nBasis_def emptyBuffers_def shellOn_def Shell_nBasis_def)
  from densityValues_scan_in_bounds [of densityExample exampleEvaluate "- 1" 2 3,
      OF densityExample_ok(1) densityExample_ok(2)]
  obtain nSigBas basoff bv sig where
    r: "densityValues_scan (\<lambda>sh. exampleEvaluate sh (- 1) 2 3) (shells densityExample)
          (0, 0, m_basisValues densityExample, m_sigBasis densityExample)
        = Some (nSigBas, basoff, bv, sig)"
    and s: "sorted_wrt (<) (take (unat nSigBas) sig)"
    and t: "\<forall>i<unat nSigBas. \<forall>j\<le>i.
        unat (rowOffset (sig ! i) + sig ! j) < triangle (unat (nBasis densityExample))"
    by blast
  from r val have eq: "nSigBas = 2" "sig = [0, 4, 0, 0, 0]" by simp_all
  have "(1 :: nat) < unat (2 :: unsigned)" by simp
  with t have "unat (rowOffset (sig ! 1) + sig ! 1) < triangle (unat (nBasis densityExample))"
    unfolding eq(1) by blast
  with val n s show ?thesis unfolding eq by simp
qed

subsection \<open>Orbital values\<close>

lemma zip_upt_nth:
  "length vals = n \<Longrightarrow> zip vals (map f [0..<n]) = map (\<lambda>i. (vals ! i, f i)) [0..<n]"
  by (rule nth_equalityI) simp_all

lemma orbital_add_loop:
  fixes g :: "int \<Rightarrow> double"
  assumes len: "length indices = unat norb"
    and rows: "\<forall>idx\<in>set indices. 0 \<le> idx \<and> nat idx < length M \<and> unat col < length (M ! nat idx)"
    and v: "unat i < length vals"
  shows "for_loop 0 norb
           (\<lambda>k ov. do {
              M' \<leftarrow> Some M;
              idx \<leftarrow> get_at indices k;
              c \<leftarrow> Matrix_get M' idx col;
              v \<leftarrow> get_at vals i;
              cur \<leftarrow> get_at ov k;
              put_at ov k (cur + c * v)
            }) (map g indices)
       = Some (map (\<lambda>idx. g idx + M ! nat idx ! unat col * vals ! unat i) indices)"
proof -
  let ?f = "\<lambda>idx. g idx + M ! nat idx ! unat col * vals ! unat i"
  let ?body = "\<lambda>k ov. do {
              M' \<leftarrow> Some M;
              idx \<leftarrow> get_at indices k;
              c \<leftarrow> Matrix_get M' idx col;
              v \<leftarrow> get_at vals i;
              cur \<leftarrow> get_at ov k;
              put_at ov k (cur + c * v)
            }"
  define Inv where "Inv k d \<longleftrightarrow> d = map ?f (take (unat k) indices) @ map g (drop (unat k) indices)"
    for k :: unsigned and d :: "double list"
  have "\<exists>t. for_loop 0 norb ?body (map g indices) = Some t \<and> Inv norb t"
  proof (rule for_loop_from_zero)
    show "Inv 0 (map g indices)" by (simp add: Inv_def)
  next
    fix k t
    assume k: "k < norb" and inv: "Inv k t"
    have kn: "unat k < length indices" using k len by (simp add: word_less_nat_alt)
    have k1: "unat (k + 1) = Suc (unat k)" using k by (rule unat_inc)
    have t: "t = map ?f (take (unat k) indices) @ map g (drop (unat k) indices)"
      using inv by (simp add: Inv_def)
    have lt: "length t = length indices" unfolding t by simp
    have cur: "t ! unat k = g (indices ! unat k)" unfolding t using kn by (simp add: nth_append)
    have row: "0 \<le> indices ! unat k" "nat (indices ! unat k) < length M"
      "unat col < length (M ! nat (indices ! unat k))"
      using rows kn by simp_all
    have dr: "drop (unat k) indices = indices ! unat k # drop (Suc (unat k)) indices"
      using kn by (simp add: Cons_nth_drop_Suc)
    have upd: "t[unat k := ?f (indices ! unat k)]
        = map ?f (take (Suc (unat k)) indices) @ map g (drop (Suc (unat k)) indices)"
      unfolding t using kn by (simp add: list_update_append take_Suc_conv_app_nth dr)
    have "?body k t = Some (t[unat k := ?f (indices ! unat k)])"
      using kn lt cur row v by (simp add: get_at_def put_at_def Matrix_get_def)
    then show "\<exists>t'. ?body k t = Some t' \<and> Inv (k + 1) t'"
      unfolding upd by (simp add: Inv_def k1)
  qed
  then show ?thesis using len by (auto simp: Inv_def)
qed

lemma orbitalForm_append [simp]:
  "orbitalForm M idx (xs @ ys) = orbitalForm M idx xs + orbitalForm M idx ys"
  by (simp add: orbitalForm_def)

lemma orbitalForm_Nil [simp]: "orbitalForm M idx [] = 0"
  by (simp add: orbitalForm_def)

lemma orbitalValues_loop_result:
  fixes g :: "int \<Rightarrow> double"
  assumes "unat basoff + basisCount shs < 2 ^ 32" and "evaluate_ok ev shs"
    and "length indices = unat norb"
    and "\<forall>idx\<in>set indices. 0 \<le> idx \<and> nat idx < length M
          \<and> unat basoff + basisCount shs \<le> length (M ! nat idx)"
  shows "orbitalValues_loop ev (Some M) indices norb shs (basoff, map g indices)
       = Some (basoff + of_nat (basisCount shs),
               map (\<lambda>idx. g idx + orbitalForm M idx (sigEntries ev basoff shs)) indices)"
  using assms
proof (induction shs arbitrary: basoff g)
  case Nil
  then show ?case by simp
next
  case (Cons sh shs)
  let ?n = "Shell_nBasis sh"
  have ok: "evaluate_ok ev shs"
    and this_ok: "case ev sh of None \<Rightarrow> True | Some vs \<Rightarrow> length vs = unat ?n"
    using Cons.prems(2) by simp_all
  have un: "unat (basoff + ?n) = unat basoff + unat ?n"
    using Cons.prems(1) by (simp add: unat_word_ariths)
  have pre1: "unat (basoff + ?n) + basisCount shs < 2 ^ 32" using Cons.prems(1) un by simp
  have pre4: "\<forall>idx\<in>set indices. 0 \<le> idx \<and> nat idx < length M
      \<and> unat (basoff + ?n) + basisCount shs \<le> length (M ! nat idx)"
    using Cons.prems(4) un by (simp add: add.assoc)
  have cnt: "basoff + ?n + of_nat (basisCount shs) = basoff + of_nat (basisCount (sh # shs))"
    by simp
  note IH = Cons.IH [OF pre1 ok Cons.prems(3) pre4]
  show ?case
  proof (cases "ev sh")
    case None
    show ?thesis using None IH [of g] by (simp add: cnt Let_def)
  next
    case (Some vals)
    let ?ixs = "map (\<lambda>i. basoff + of_nat i) [0..<unat ?n]"
    let ?t = "\<lambda>i idx. M ! nat idx ! unat (basoff + of_nat i) * vals ! i"
    have lv: "length vals = unat ?n" using this_ok Some by simp
    have istep: "for_loop 0 norb
           (\<lambda>k ov. do {
              M' \<leftarrow> Some M;
              idx \<leftarrow> get_at indices k;
              c \<leftarrow> Matrix_get M' idx (basoff + i);
              v \<leftarrow> get_at vals i;
              cur \<leftarrow> get_at ov k;
              put_at ov k (cur + c * v)
            }) (map h indices) = Some (map (\<lambda>idx. h idx + ?t (unat i) idx) indices)"
      if i: "i < ?n" for i and h :: "int \<Rightarrow> double"
    proof -
      have iu: "unat i < unat ?n" using i by (simp add: word_less_nat_alt)
      have col: "unat (basoff + i) = unat basoff + unat i"
        using Cons.prems(1) iu by (simp add: unat_word_ariths)
      have rows: "\<forall>idx\<in>set indices. 0 \<le> idx \<and> nat idx < length M
          \<and> unat (basoff + i) < length (M ! nat idx)"
        using Cons.prems(4) iu col by fastforce
      have vi: "unat i < length vals" using iu lv by simp
      show ?thesis
        using orbital_add_loop [OF Cons.prems(3) rows vi, of h] by simp
    qed
    have loop: "for_loop 0 ?n
         (\<lambda>i ov. for_loop 0 norb
            (\<lambda>k ov. do {
               M' \<leftarrow> Some M;
               idx \<leftarrow> get_at indices k;
               c \<leftarrow> Matrix_get M' idx (basoff + i);
               v \<leftarrow> get_at vals i;
               cur \<leftarrow> get_at ov k;
               put_at ov k (cur + c * v)
             }) ov) (map g indices)
       = Some (map (\<lambda>idx. g idx + (\<Sum>i\<leftarrow>[0..<unat ?n]. ?t i idx)) indices)"
      by (rule accumulate_loop) (rule istep)
    have E: "sigEntries ev basoff (sh # shs) = zip vals ?ixs @ sigEntries ev (basoff + ?n) shs"
      using Some by simp
    have form: "orbitalForm M idx (zip vals ?ixs) = (\<Sum>i\<leftarrow>[0..<unat ?n]. ?t i idx)" for idx
      unfolding zip_upt_nth [OF lv] by (simp add: orbitalForm_def comp_def)
    have "orbitalValues_loop ev (Some M) indices norb (sh # shs) (basoff, map g indices)
        = orbitalValues_loop ev (Some M) indices norb shs
            (basoff + ?n, map (\<lambda>idx. g idx + (\<Sum>i\<leftarrow>[0..<unat ?n]. ?t i idx)) indices)"
      using Some loop by (simp add: Let_def)
    also have "\<dots> = Some (basoff + ?n + of_nat (basisCount shs),
        map (\<lambda>idx. g idx + (\<Sum>i\<leftarrow>[0..<unat ?n]. ?t i idx)
               + orbitalForm M idx (sigEntries ev (basoff + ?n) shs)) indices)"
      by (rule IH)
    finally show ?thesis unfolding E cnt by (simp add: form add.assoc)
  qed
qed

lemma sum_list_pick_upt:
  "(\<Sum>i\<leftarrow>[0..<n]. if i = j then f i else 0) = (if j < n then f j else (0 :: real))"
  by (induction n) auto

lemma sum_list_pick_none:
  "\<forall>e\<in>set E. unat (snd e) \<noteq> t \<Longrightarrow> (\<Sum>(v, g)\<leftarrow>E. if unat g = t then v else 0) = (0 :: real)"
  by (induction E) auto

lemma basisVector_nth_sigEntries:
  assumes "unat off + basisCount shs < 2 ^ 32" and "evaluate_ok ev shs" and "j < basisCount shs"
  shows "basisVector ev shs ! j
       = (\<Sum>(v, g)\<leftarrow>sigEntries ev off shs. if unat g = unat off + j then v else 0)"
  using assms
proof (induction shs arbitrary: off j)
  case Nil
  then show ?case by simp
next
  case (Cons sh shs)
  let ?n = "Shell_nBasis sh"
  let ?ixs = "map (\<lambda>i. off + of_nat i) [0..<unat ?n]"
  let ?E0 = "case ev sh of Some vals \<Rightarrow> zip vals ?ixs | None \<Rightarrow> []"
  let ?E' = "sigEntries ev (off + ?n) shs"
  let ?pick = "\<lambda>E. (\<Sum>(v, g)\<leftarrow>E. if unat g = unat off + j then v else 0)"
  have ok: "evaluate_ok ev shs"
    and this_ok: "case ev sh of None \<Rightarrow> True | Some vs \<Rightarrow> length vs = unat ?n"
    using Cons.prems(2) by simp_all
  have un: "unat (off + ?n) = unat off + unat ?n"
    using Cons.prems(1) by (simp add: unat_word_ariths)
  have pre: "unat (off + ?n) + basisCount shs < 2 ^ 32" using Cons.prems(1) un by simp
  have ui: "unat (off + of_nat i) = unat off + i" if "i < unat ?n" for i
    using Cons.prems(1) that by (intro unat_plus_of_nat) simp
  have ls: "length (shellSlice ev sh) = unat ?n" using this_ok by (rule length_shellSlice)
  have split: "?pick (sigEntries ev off (sh # shs)) = ?pick ?E0 + ?pick ?E'" by simp
  have E0: "?pick ?E0 = (if j < unat ?n then shellSlice ev sh ! j else 0)"
  proof (cases "ev sh")
    case None
    then show ?thesis by (simp add: shellSlice_def)
  next
    case (Some vals)
    have lv: "length vals = unat ?n" using this_ok Some by simp
    have meq: "map (\<lambda>i. if unat (off + of_nat i) = unat off + j then vals ! i else 0) [0..<unat ?n]
        = map (\<lambda>i. if i = j then vals ! i else 0) [0..<unat ?n]"
      by (rule map_cong) (simp_all add: ui)
    have "?pick (zip vals ?ixs)
        = (\<Sum>i\<leftarrow>[0..<unat ?n]. if unat (off + of_nat i) = unat off + j then vals ! i else 0)"
      unfolding zip_upt_nth [OF lv] by (simp add: comp_def)
    also have "\<dots> = (\<Sum>i\<leftarrow>[0..<unat ?n]. if i = j then vals ! i else 0)"
      unfolding meq ..
    finally have "?pick (zip vals ?ixs) = (\<Sum>i\<leftarrow>[0..<unat ?n]. if i = j then vals ! i else 0)" .
    then show ?thesis using Some by (simp add: sum_list_pick_upt shellSlice_def)
  qed
  show ?case
  proof (cases "j < unat ?n")
    case True
    have "\<forall>e\<in>set ?E'. unat (snd e) \<noteq> unat off + j"
      using sigEntries_bounds [OF pre] un True by fastforce
    then have "?pick ?E' = 0" by (rule sum_list_pick_none)
    then show ?thesis
      unfolding split E0 using True ls by (simp add: basisVector_Cons nth_append)
  next
    case False
    then have j': "j - unat ?n < basisCount shs" using Cons.prems(3) by simp
    have "basisVector ev shs ! (j - unat ?n)
        = (\<Sum>(v, g)\<leftarrow>?E'. if unat g = unat (off + ?n) + (j - unat ?n) then v else 0)"
      by (rule Cons.IH [OF pre ok j'])
    also have "unat (off + ?n) + (j - unat ?n) = unat off + j" using False un by simp
    finally show ?thesis
      unfolding split E0 using False ls by (simp add: basisVector_Cons nth_append)
  qed
qed

lemma orbitalForm_identity:
  assumes "\<forall>e\<in>set E. unat (snd e) < n"
    and "list_all (\<lambda>j. M ! nat idx ! j = (if j = nat idx then 1 else 0)) [0..<n]"
  shows "orbitalForm M idx E = (\<Sum>(v, g)\<leftarrow>E. if unat g = nat idx then v else 0)"
proof -
  have "M ! nat idx ! unat g * v = (if unat g = nat idx then v else 0)" if "(v, g) \<in> set E" for v g
  proof -
    have "unat g < n" using assms(1) that by fastforce
    then show ?thesis using assms(2) by (simp add: list_all_iff)
  qed
  then show ?thesis
    unfolding orbitalForm_def by (intro arg_cong [where f = sum_list] map_cong) auto
qed

lemma orbitalValues_result:
  assumes rs: "resized sl" and ev: "evaluate_ok (\<lambda>sh. evaluate sh x y z) (shells sl)"
    and ob: "orbitals_ok sl M"
  shows "orbitalValues evaluate sl x y z
       = Some (sl\<lparr>m_orbitalValues :=
                    map (\<lambda>idx. orbitalForm M idx (sigEntries (\<lambda>sh. evaluate sh x y z) 0 (shells sl)))
                      (m_orbitalIndices sl)\<rparr>)"
proof -
  let ?ev = "\<lambda>sh. evaluate sh x y z"
  let ?ind = "m_orbitalIndices sl"
  let ?norb = "usize ?ind"
  have bc: "basisCount (shells sl) < 2 ^ 32" using rs by (simp add: resized_def)
  have n: "unat (nBasis sl) = basisCount (shells sl)" using bc by (rule unat_nBasis)
  have li: "length ?ind = unat ?norb"
    using ob by (simp add: orbitals_ok_def QList_ok_def usize_def unat_of_nat take_bit_nat_eq_self)
  have lo: "length (m_orbitalValues sl) = unat ?norb" using ob li by (simp add: orbitals_ok_def)
  have M: "m_orbitalCoefficients sl = Some M" using ob by (simp add: orbitals_ok_def)
  have rows: "\<forall>idx\<in>set ?ind. 0 \<le> idx \<and> nat idx < length M
      \<and> unat (0 :: unsigned) + basisCount (shells sl) \<le> length (M ! nat idx)"
    using ob n by (simp add: orbitals_ok_def list_all_iff)
  have zero: "for_loop 0 ?norb (\<lambda>k ov. put_at ov k 0) (m_orbitalValues sl)
      = Some (map (\<lambda>idx. 0) ?ind)"
    using zero_loop [OF lo] li by (simp add: map_replicate_const)
  have loop: "orbitalValues_loop ?ev (Some M) ?ind ?norb (shells sl) (0, map (\<lambda>idx. 0) ?ind)
      = Some (0 + of_nat (basisCount (shells sl)),
              map (\<lambda>idx. 0 + orbitalForm M idx (sigEntries ?ev 0 (shells sl))) ?ind)"
    using bc by (intro orbitalValues_loop_result ev li rows) simp
  show ?thesis
    unfolding orbitalValues_def using zero loop by (simp add: M)
qed

text \<open>
  C2. For every point, \<^verbatim>\<open>orbitalValues(x, y, z)\<close> zeroes its output and then, for every
  shell that does not evaluate to null, adds \<open>coefficient[index\<^sub>k][offset + i] * value\<^sub>i\<close> to
  element \<open>k\<close> of the output, for every requested orbital \<open>k\<close> and every basis function \<open>i\<close>
  of the shell at the shell's global offset: element \<open>k\<close> is the sum over the significant
  entries of coefficient times value. So with a coefficient matrix that is the identity
  on the requested rows, element \<open>k\<close> of the output is element \<open>indices[k]\<close> of the vector
  \<^verbatim>\<open>shellValues(x, y, z)\<close> returns. The container is one whose buffers \<^verbatim>\<open>resize()\<close> has
  sized, \<^verbatim>\<open>evaluate\<close> returns null or one value per basis function of the shell, and the
  matrix bound has the requested rows, each with a column for every basis function
  (\<open>orbitals_ok\<close>).
\<close>

theorem orbitalValues_projection:
  assumes "resized sl" and "evaluate_ok (\<lambda>sh. evaluate sh x y z) (shells sl)"
    and "orbitals_ok sl M"
  shows "orbitalValues evaluate sl x y z
       = Some (sl\<lparr>m_orbitalValues :=
                    map (\<lambda>idx. orbitalForm M idx (sigEntries (\<lambda>sh. evaluate sh x y z) 0 (shells sl)))
                      (m_orbitalIndices sl)\<rparr>)
    \<and> (identity_rows M (m_orbitalIndices sl) (unat (nBasis sl)) \<longrightarrow>
         (\<exists>ov sv. orbitalValues evaluate sl x y z = Some ov
            \<and> shellValues evaluate sl x y z = Some sv
            \<and> length (m_orbitalValues ov) = length (m_orbitalIndices sl)
            \<and> (\<forall>k<length (m_orbitalIndices sl).
                  m_orbitalValues ov ! k = m_basisValues sv ! nat (m_orbitalIndices sl ! k))))"
proof -
  let ?ev = "\<lambda>sh. evaluate sh x y z"
  let ?E = "sigEntries ?ev 0 (shells sl)"
  let ?ind = "m_orbitalIndices sl"
  have bc: "basisCount (shells sl) < 2 ^ 32" using assms(1) by (simp add: resized_def)
  have n: "unat (nBasis sl) = basisCount (shells sl)" using bc by (rule unat_nBasis)
  have z: "unat (0 :: unsigned) + basisCount (shells sl) < 2 ^ 32" using bc by simp
  have ov: "orbitalValues evaluate sl x y z
       = Some (sl\<lparr>m_orbitalValues := map (\<lambda>idx. orbitalForm M idx ?E) ?ind\<rparr>)"
    using assms by (rule orbitalValues_result)
  have sv: "shellValues evaluate sl x y z
       = Some (sl\<lparr>m_basisValues := basisVector ?ev (shells sl)\<rparr>)"
    using assms(1,2) by (rule shellValues_result)
  have below: "\<forall>e\<in>set ?E. unat (snd e) < unat (nBasis sl)"
    using sigEntries_bounds [OF z] n by fastforce
  have pick: "orbitalForm M (?ind ! k) ?E = basisVector ?ev (shells sl) ! nat (?ind ! k)"
    if id: "identity_rows M ?ind (unat (nBasis sl))" and k: "k < length ?ind" for k
  proof -
    have mem: "?ind ! k \<in> set ?ind" using k by simp
    have lt: "nat (?ind ! k) < basisCount (shells sl)"
      and row: "list_all (\<lambda>j. M ! nat (?ind ! k) ! j = (if j = nat (?ind ! k) then 1 else 0))
          [0..<unat (nBasis sl)]"
      using id mem n unfolding identity_rows_def list_all_iff by auto
    have "orbitalForm M (?ind ! k) ?E
        = (\<Sum>(v, g)\<leftarrow>?E. if unat g = nat (?ind ! k) then v else 0)"
      using below row by (rule orbitalForm_identity)
    also have "\<dots> = basisVector ?ev (shells sl) ! nat (?ind ! k)"
      using basisVector_nth_sigEntries [OF z assms(2) lt] by simp
    finally show ?thesis .
  qed
  show ?thesis using ov sv pick by simp
qed

lemma identityExample_eq:
  "identityExample = (emptyBuffers [shellOn S 0, shellOn P 0, shellOn S 1])
     \<lparr>m_nBasis := 5, m_basisValues := replicate 5 0, m_sigBasis := replicate 5 0,
      m_basisPairValues := replicate 15 0,
      m_orbitalIndices := [3, 1, 0],
      m_orbitalCoefficients := Some [[1, 0, 0, 0, 0], [0, 1, 0, 0, 0], [0, 0, 1, 0, 0],
                                     [0, 0, 0, 1, 0], [0, 0, 0, 0, 1]],
      m_orbitalValues := [0, 0, 0]\<rparr>"
  by (simp add: identityExample_def setOrbitalVectors_def resize_def Let_def nBasis_def
      emptyBuffers_def shellOn_def Shell_nBasis_def Vector_resize_def usize_def replicate_numeral)

lemma identityExample_ok:
  "resized identityExample"
  "evaluate_ok (\<lambda>sh. exampleEvaluate sh x y z) (shells identityExample)"
  "orbitals_ok identityExample [[1, 0, 0, 0, 0], [0, 1, 0, 0, 0], [0, 0, 1, 0, 0],
                                [0, 0, 0, 1, 0], [0, 0, 0, 0, 1]]"
  "identity_rows [[1, 0, 0, 0, 0], [0, 1, 0, 0, 0], [0, 0, 1, 0, 0], [0, 0, 0, 1, 0], [0, 0, 0, 0, 1]]
     (m_orbitalIndices identityExample) (unat (nBasis identityExample))"
  unfolding identityExample_eq
  by (simp_all add: resized_def orbitals_ok_def identity_rows_def QList_ok_def nBasis_def
      basisCount_def emptyBuffers_def shellOn_def Shell_nBasis_def exampleEvaluate_def upt_conv_Cons)

lemma orbitalExample_eq:
  "orbitalExample = (emptyBuffers [shellOn S 0, shellOn P 0, shellOn S 1])
     \<lparr>m_nBasis := 5, m_basisValues := replicate 5 0, m_sigBasis := replicate 5 0,
      m_basisPairValues := replicate 15 0,
      m_orbitalIndices := [0, 1],
      m_orbitalCoefficients := Some [[1, 2, 3, 4, 5], [0, 1, 0, 1, 0]],
      m_orbitalValues := [0, 0]\<rparr>"
  by (simp add: orbitalExample_def setOrbitalVectors_def resize_def Let_def nBasis_def
      emptyBuffers_def shellOn_def Shell_nBasis_def Vector_resize_def usize_def replicate_numeral)

lemma orbitalExample_ok:
  "resized orbitalExample"
  "evaluate_ok (\<lambda>sh. exampleEvaluate sh x y z) (shells orbitalExample)"
  "orbitals_ok orbitalExample [[1, 2, 3, 4, 5], [0, 1, 0, 1, 0]]"
  unfolding orbitalExample_eq
  by (simp_all add: resized_def orbitals_ok_def QList_ok_def nBasis_def
      basisCount_def emptyBuffers_def shellOn_def Shell_nBasis_def exampleEvaluate_def)

theorem orbitalValues_projection_witness:
  "orbitalValues exampleEvaluate orbitalExample 1 2 5
     = Some (orbitalExample\<lparr>m_orbitalValues := [46, 6]\<rparr>)
   \<and> orbitalValues exampleEvaluate orbitalExample (- 1) 2 5
     = Some (orbitalExample\<lparr>m_orbitalValues := [6, 0]\<rparr>)
   \<and> (\<exists>ov sv. orbitalValues exampleEvaluate identityExample 1 2 5 = Some ov
         \<and> shellValues exampleEvaluate identityExample 1 2 5 = Some sv
         \<and> m_orbitalValues ov = [5, 1, 3]
         \<and> m_basisValues sv = [3, 1, 2, 5, 3])"
proof -
  have E1: "sigEntries (\<lambda>sh. exampleEvaluate sh 1 2 5) 0 [shellOn S 0, shellOn P 0, shellOn S 1]
      = [(3, 0), (1, 1), (2, 2), (5, 3), (3, 4)]"
    by (simp add: shellOn_def Shell_nBasis_def exampleEvaluate_def upt_conv_Cons)
  have E2: "sigEntries (\<lambda>sh. exampleEvaluate sh (- 1) 2 5) 0 [shellOn S 0, shellOn P 0, shellOn S 1]
      = [(1, 0), (1, 4)]"
    by (simp add: shellOn_def Shell_nBasis_def exampleEvaluate_def upt_conv_Cons)
  have sh: "shells orbitalExample = [shellOn S 0, shellOn P 0, shellOn S 1]"
    "shells identityExample = [shellOn S 0, shellOn P 0, shellOn S 1]"
    "m_orbitalIndices orbitalExample = [0, 1]" "m_orbitalIndices identityExample = [3, 1, 0]"
    by (simp_all add: orbitalExample_eq identityExample_eq emptyBuffers_def)
  have a: "orbitalValues exampleEvaluate orbitalExample 1 2 5
     = Some (orbitalExample\<lparr>m_orbitalValues := [46, 6]\<rparr>)"
    using orbitalValues_projection [of orbitalExample exampleEvaluate 1 2 5, OF orbitalExample_ok]
    unfolding sh E1 by (simp add: orbitalForm_def)
  have b: "orbitalValues exampleEvaluate orbitalExample (- 1) 2 5
     = Some (orbitalExample\<lparr>m_orbitalValues := [6, 0]\<rparr>)"
    using orbitalValues_projection [of orbitalExample exampleEvaluate "- 1" 2 5, OF orbitalExample_ok]
    unfolding sh E2 by (simp add: orbitalForm_def)
  from orbitalValues_projection [of identityExample exampleEvaluate 1 2 5,
      OF identityExample_ok(1) identityExample_ok(2) identityExample_ok(3)]
    identityExample_ok(4)
  obtain ov sv where ov: "orbitalValues exampleEvaluate identityExample 1 2 5 = Some ov"
    and sv: "shellValues exampleEvaluate identityExample 1 2 5 = Some sv"
    and len: "length (m_orbitalValues ov) = length (m_orbitalIndices identityExample)"
    and eq: "\<forall>k<length (m_orbitalIndices identityExample).
        m_orbitalValues ov ! k = m_basisValues sv ! nat (m_orbitalIndices identityExample ! k)"
    by blast
  have "shellValues exampleEvaluate identityExample 1 2 5
      = Some (identityExample\<lparr>m_basisValues := [3, 1, 2, 5, 3]\<rparr>)"
    using shellValues_result [of identityExample exampleEvaluate 1 2 5,
        OF identityExample_ok(1) identityExample_ok(2)]
    unfolding sh by (simp add: basisVector_def shellSlice_def shellOn_def exampleEvaluate_def)
  with sv have bvs: "m_basisValues sv = [3, 1, 2, 5, 3]" by auto
  have "m_orbitalValues ov = [5, 1, 3]"
    using len eq unfolding sh bvs
    by (intro nth_equalityI) (auto simp: less_Suc_eq numeral_3_eq_3)
  with a b ov sv bvs show ?thesis by blast
qed

subsection \<open>Construction\<close>

lemma primOffset_Suc:
  "k < length (shellPrimitives sd) \<Longrightarrow> primOffset sd (Suc k) = primOffset sd k + unat (shellPrimitives sd ! k)"
  by (simp add: primOffset_def take_Suc_conv_app_nth)

lemma primOffset_mono: "j \<le> k \<Longrightarrow> primOffset sd j \<le> primOffset sd k"
proof -
  assume "j \<le> k"
  then have "take k (shellPrimitives sd) = take j (shellPrimitives sd) @ take (k - j) (drop j (shellPrimitives sd))"
    by (metis le_add_diff_inverse take_add)
  then show ?thesis by (simp add: primOffset_def)
qed

lemma take_drop_snoc:
  "off + i < length xs \<Longrightarrow> take (Suc i) (drop off xs) = take i (drop off xs) @ [xs ! (off + i)]"
  by (simp add: take_Suc_conv_app_nth)

lemma primitives_loop_result:
  assumes fit: "unat cnt + unat np \<le> length (exponents sd)"
    and fit2: "unat cnt + unat np \<le> length (contractionCoefficients sd)"
    and fit3: "contractionCoefficientsSP sd = [] \<or> unat cnt + unat np \<le> length (contractionCoefficientsSP sd)"
    and small: "length (exponents sd) < 2 ^ 32"
  shows "for_loop 0 np (primitives_body sd conv) (cnt, [], [], [])
       = Some (cnt + np,
               map (\<lambda>e. e * conv) (take (unat np) (drop (unat cnt) (exponents sd))),
               take (unat np) (drop (unat cnt) (contractionCoefficients sd)),
               if contractionCoefficientsSP sd = [] then []
               else take (unat np) (drop (unat cnt) (contractionCoefficientsSP sd)))"
proof -
  define Inv where "Inv i st \<longleftrightarrow>
      st = (cnt + i,
            map (\<lambda>e. e * conv) (take (unat i) (drop (unat cnt) (exponents sd))),
            take (unat i) (drop (unat cnt) (contractionCoefficients sd)),
            if contractionCoefficientsSP sd = [] then []
            else take (unat i) (drop (unat cnt) (contractionCoefficientsSP sd)))"
    for i :: unsigned and st :: primState
  have "\<exists>t. for_loop 0 np (primitives_body sd conv) (cnt, [], [], []) = Some t \<and> Inv np t"
  proof (rule for_loop_from_zero)
    show "Inv 0 (cnt, [], [], [])" by (simp add: Inv_def)
  next
    fix i t
    assume i: "i < np" and inv: "Inv i t"
    have iu: "unat i < unat np" using i by (simp add: word_less_nat_alt)
    have i1: "unat (i + 1) = Suc (unat i)" using i by (rule unat_inc)
    have c: "unat (cnt + i) = unat cnt + unat i"
      using fit small iu by (simp add: unat_word_ariths)
    have r1: "unat cnt + unat i < length (exponents sd)" using fit iu by simp
    have r2: "unat cnt + unat i < length (contractionCoefficients sd)" using fit2 iu by simp
    have r3: "unat cnt + unat i < length (contractionCoefficientsSP sd)"
      if "contractionCoefficientsSP sd \<noteq> []"
      using fit3 iu that by auto
    show "\<exists>t'. primitives_body sd conv i t = Some t' \<and> Inv (i + 1) t'"
      using inv r1 r2 r3
      by (auto simp: Inv_def primitives_body_def get_at_def c i1 take_drop_snoc add.assoc)
  qed
  then show ?thesis by (auto simp: Inv_def)
qed

lemma snd_shellsOfType:
  "snd (shellsOfType shell t atom pos expts coefs coefsSP)
     = (if t \<in> {- 4..4} then [] else [UnknownShellType shell t])"
proof (cases "t \<in> {- 4..4}")
  case True
  then have "t = 0 \<or> t = - 1 \<or> t = 1 \<or> t = - 2 \<or> t = 2 \<or> t = - 3 \<or> t = 3 \<or> t = - 4 \<or> t = 4"
    by (simp add: atLeastAtMost_iff) arith
  then show ?thesis using True by (auto simp: shellsOfType_def)
next
  case False
  then show ?thesis by (auto simp: shellsOfType_def)
qed

lemma unat_usize: "QList_ok xs \<Longrightarrow> unat (usize xs) = length xs"
  by (simp add: QList_ok_def usize_def unat_of_nat take_bit_nat_eq_self)

lemma ShellList_loop_result:
  assumes ok: "ShellData_ok sd"
  shows "for_loop 0 (usize (shellTypes sd)) (ShellList_body sd geometry conv) (0, [], [])
       = Some (of_nat (primOffset sd (length (shellTypes sd))),
               concat (map (entryShells sd geometry conv) [0..<length (shellTypes sd)]),
               concat (map (entryMessages sd) [0..<length (shellTypes sd)]))"
proof -
  let ?n = "length (shellTypes sd)"
  have n: "unat (usize (shellTypes sd)) = ?n" using ok by (simp add: ShellData_ok_def unat_usize)
  have small: "length (exponents sd) < 2 ^ 32" using ok by (simp add: ShellData_ok_def QList_ok_def)
  have la: "?n \<le> length (shellToAtom sd)" and lp: "?n \<le> length (shellPrimitives sd)"
    and le: "primOffset sd ?n \<le> length (exponents sd)"
    and lc: "primOffset sd ?n \<le> length (contractionCoefficients sd)"
    and ls: "contractionCoefficientsSP sd = [] \<or> primOffset sd ?n \<le> length (contractionCoefficientsSP sd)"
    using ok by (simp_all add: ShellData_ok_def)
  define Inv where "Inv k st \<longleftrightarrow>
      st = (of_nat (primOffset sd (unat k)),
            concat (map (entryShells sd geometry conv) [0..<unat k]),
            concat (map (entryMessages sd) [0..<unat k]))"
    for k :: unsigned and st :: ctorState
  have "\<exists>t. for_loop 0 (usize (shellTypes sd)) (ShellList_body sd geometry conv) (0, [], []) = Some t
      \<and> Inv (usize (shellTypes sd)) t"
  proof (rule for_loop_from_zero)
    show "Inv 0 (0, [], [])" by (simp add: Inv_def primOffset_def)
  next
    fix k t
    assume k: "k < usize (shellTypes sd)" and inv: "Inv k t"
    let ?k = "unat k"
    let ?cnt = "of_nat (primOffset sd ?k) :: unsigned"
    let ?np = "shellPrimitives sd ! ?k"
    have kn: "?k < ?n" using k n by (simp add: word_less_nat_alt)
    have k1: "unat (k + 1) = Suc ?k" using k by (rule unat_inc)
    have kp: "?k < length (shellPrimitives sd)" and ka: "?k < length (shellToAtom sd)"
      using kn la lp by simp_all
    have suc: "primOffset sd (Suc ?k) = primOffset sd ?k + unat ?np" using kp by (rule primOffset_Suc)
    have tot: "primOffset sd (Suc ?k) \<le> primOffset sd ?n" using kn by (intro primOffset_mono) simp
    have "primOffset sd ?k < 2 ^ 32" using suc tot le small by simp
    then have uc: "unat ?cnt = primOffset sd ?k" by (simp add: unat_of_nat take_bit_nat_eq_self)
    have f1: "unat ?cnt + unat ?np \<le> length (exponents sd)" using uc suc tot le by simp
    have f2: "unat ?cnt + unat ?np \<le> length (contractionCoefficients sd)" using uc suc tot lc by simp
    have f3: "contractionCoefficientsSP sd = []
        \<or> unat ?cnt + unat ?np \<le> length (contractionCoefficientsSP sd)"
      using uc suc tot ls by auto
    have prim: "for_loop 0 ?np (primitives_body sd conv) (?cnt, [], [], [])
        = Some (?cnt + ?np, entryExpts sd conv ?k, entryCoefs sd ?k, entryCoefsSP sd ?k)"
      using primitives_loop_result [OF f1 f2 f3 small, of conv]
      by (simp add: entryExpts_def entryCoefs_def entryCoefsSP_def primSlice_def uc)
    have cnt': "?cnt + ?np = of_nat (primOffset sd (Suc ?k))" by (simp add: suc)
    have t: "t = (?cnt, concat (map (entryShells sd geometry conv) [0..<?k]),
                  concat (map (entryMessages sd) [0..<?k]))"
      using inv by (simp add: Inv_def)
    have "ShellList_body sd geometry conv k t
        = Some (of_nat (primOffset sd (Suc ?k)),
                concat (map (entryShells sd geometry conv) [0..<?k]) @ entryShells sd geometry conv ?k,
                concat (map (entryMessages sd) [0..<?k]) @ entryMessages sd ?k)"
      unfolding t ShellList_body_def
      using kn ka kp
      by (simp add: get_at_def prim cnt' split_beta entryShells_def entryMessages_def
          entryAtom_def snd_shellsOfType Let_def)
    then show "\<exists>t'. ShellList_body sd geometry conv k t = Some t' \<and> Inv (k + 1) t'"
      by (simp add: Inv_def k1)
  qed
  then show ?thesis using n by (auto simp: Inv_def)
qed

lemma ShellList_ctor_result:
  assumes ok: "ShellData_ok sd"
  shows "ShellList_ctor sd geometry b
       = Some (let shs = concat (map (entryShells sd geometry (convExponents b)) [0..<length (shellTypes sd)]);
                   sl = emptyBuffers shs;
                   n = nBasis sl;
                   sl' = (if usize (overlapMatrix sd) = (n + 1) * n div 2
                          then setOverlapMatrix sl (overlapMatrix sd) else sl)
               in (fst (resize sl'),
                   concat (map (entryMessages sd) [0..<length (shellTypes sd)]) @ snd (resize sl')))"
  unfolding ShellList_ctor_def
  by (simp add: ShellList_loop_result [OF ok] Let_def split_beta)

lemma ShellList_ctor_shells:
  assumes "ShellData_ok sd"
  shows "\<exists>sl out. ShellList_ctor sd geometry b = Some (sl, out)
      \<and> shells sl = concat (map (entryShells sd geometry (convExponents b)) [0..<length (shellTypes sd)])
      \<and> (\<forall>k<length (shellTypes sd). set (entryMessages sd k) \<subseteq> set out)"
proof -
  define shs where
    "shs = concat (map (entryShells sd geometry (convExponents b)) [0..<length (shellTypes sd)])"
  define sl' where "sl' = (if usize (overlapMatrix sd)
        = (nBasis (emptyBuffers shs) + 1) * nBasis (emptyBuffers shs) div 2
      then setOverlapMatrix (emptyBuffers shs) (overlapMatrix sd) else emptyBuffers shs)"
  define msgs where "msgs = concat (map (entryMessages sd) [0..<length (shellTypes sd)])"
  have r: "ShellList_ctor sd geometry b = Some (fst (resize sl'), msgs @ snd (resize sl'))"
    unfolding ShellList_ctor_result [OF assms] shs_def sl'_def msgs_def by (simp add: Let_def)
  have "shells sl' = shs" by (simp add: sl'_def setOverlapMatrix_def emptyBuffers_def)
  then have sh: "shells (fst (resize sl')) = shs" by (simp add: resize_shells)
  have "\<forall>k<length (shellTypes sd). set (entryMessages sd k) \<subseteq> set (msgs @ snd (resize sl'))"
    unfolding msgs_def by auto
  with r sh show ?thesis unfolding shs_def by blast
qed

text \<open>
  C5. During construction the raw shell at position \<open>k\<close> with type code \<open>-1\<close> stands for
  exactly two consecutive shells of the container, an S shell with the primary
  contraction coefficients and a P shell with the SP coefficients, both with the
  converted exponents, the atom and the position of the entry. Each of the codes 0, 1,
  -2, 2, -3, 3, -4, 4 stands for exactly one shell, of kind S, P, D5, D6, F7, F10, G9,
  G15. The shells of the container are the shells of the entries in order. The record is
  one the constructor reads within its lists (\<open>ShellData_ok\<close>).
\<close>

theorem ShellList_ctor_type_codes:
  assumes "ShellData_ok sd"
  shows "\<exists>sl out. ShellList_ctor sd geometry b = Some (sl, out)
      \<and> shells sl = concat (map (entryShells sd geometry (convExponents b)) [0..<length (shellTypes sd)])
      \<and> (\<forall>k<length (shellTypes sd).
            (shellTypes sd ! k = - 1 \<longrightarrow>
               entryShells sd geometry (convExponents b) k
               = [Shell S (entryAtom sd k) (geometry (entryAtom sd k))
                    (entryExpts sd (convExponents b) k) (entryCoefs sd k),
                  Shell P (entryAtom sd k) (geometry (entryAtom sd k))
                    (entryExpts sd (convExponents b) k) (entryCoefsSP sd k)])
          \<and> (\<forall>kind. kindOfCode (shellTypes sd ! k) = Some kind \<longrightarrow>
               entryShells sd geometry (convExponents b) k
               = [Shell kind (entryAtom sd k) (geometry (entryAtom sd k))
                    (entryExpts sd (convExponents b) k) (entryCoefs sd k)]))"
proof -
  have two: "entryShells sd geometry conv k
      = [Shell S (entryAtom sd k) (geometry (entryAtom sd k)) (entryExpts sd conv k) (entryCoefs sd k),
         Shell P (entryAtom sd k) (geometry (entryAtom sd k)) (entryExpts sd conv k) (entryCoefsSP sd k)]"
    if "shellTypes sd ! k = - 1" for k conv
    using that by (simp add: entryShells_def shellsOfType_def)
  have one: "entryShells sd geometry conv k
      = [Shell kind (entryAtom sd k) (geometry (entryAtom sd k)) (entryExpts sd conv k) (entryCoefs sd k)]"
    if "kindOfCode (shellTypes sd ! k) = Some kind" for k conv kind
    using that by (auto simp: entryShells_def shellsOfType_def kindOfCode_def split: if_splits)
  from ShellList_ctor_shells [OF assms, of geometry b] two one show ?thesis by blast
qed

lemma exampleData_ok: "ShellData_ok exampleData"
  by (simp add: ShellData_ok_def exampleData_def QList_ok_def primOffset_def)

lemma exampleData_entries:
  "entryShells exampleData exampleGeometry (convExponents 1) 0 = [Shell S 0 (Vec 0 0 0) [1, 2] [10, 20]]"
  "entryShells exampleData exampleGeometry (convExponents 1) (Suc 0)
     = [Shell S 0 (Vec 0 0 0) [3] [30], Shell P 0 (Vec 0 0 0) [3] [31]]"
  "entryShells exampleData exampleGeometry (convExponents 1) 2 = []"
  "entryShells exampleData exampleGeometry (convExponents 1) 3 = [Shell P 1 (Vec 1 0 0) [5] [50]]"
  by (simp_all add: entryShells_def shellsOfType_def entryAtom_def entryExpts_def entryCoefs_def
      entryCoefsSP_def primSlice_def primOffset_def exampleData_def exampleGeometry_def convExponents_def)

lemma upt_4: "[0..<4] = [0, Suc 0, 2, 3]"
  by (simp add: upt_conv_Cons)

lemma exampleData_ctor:
  "\<exists>sl out. ShellList_ctor exampleData exampleGeometry 1 = Some (sl, out)
      \<and> shells sl = [Shell S 0 (Vec 0 0 0) [1, 2] [10, 20],
                     Shell S 0 (Vec 0 0 0) [3] [30], Shell P 0 (Vec 0 0 0) [3] [31],
                     Shell P 1 (Vec 1 0 0) [5] [50]]"
proof -
  have n: "length (shellTypes exampleData) = 4" by (simp add: exampleData_def)
  from ShellList_ctor_shells [OF exampleData_ok, of exampleGeometry 1]
  show ?thesis unfolding n upt_4 by (auto simp: exampleData_entries)
qed

theorem ShellList_ctor_type_codes_witness:
  "\<exists>sl out. ShellList_ctor exampleData exampleGeometry 1 = Some (sl, out)
      \<and> shells sl = [Shell S 0 (Vec 0 0 0) [1, 2] [10, 20],
                     Shell S 0 (Vec 0 0 0) [3] [30], Shell P 0 (Vec 0 0 0) [3] [31],
                     Shell P 1 (Vec 1 0 0) [5] [50]]"
proof -
  have n: "length (shellTypes exampleData) = 4" by (simp add: exampleData_def)
  from ShellList_ctor_type_codes [OF exampleData_ok, of exampleGeometry 1]
  obtain sl out where r: "ShellList_ctor exampleData exampleGeometry 1 = Some (sl, out)"
    and sh: "shells sl = concat (map (entryShells exampleData exampleGeometry (convExponents 1))
        [0, Suc 0, 2, 3])"
    and two: "\<forall>k<4. shellTypes exampleData ! k = - 1 \<longrightarrow>
               entryShells exampleData exampleGeometry (convExponents 1) k
               = [Shell S (entryAtom exampleData k) (exampleGeometry (entryAtom exampleData k))
                    (entryExpts exampleData (convExponents 1) k) (entryCoefs exampleData k),
                  Shell P (entryAtom exampleData k) (exampleGeometry (entryAtom exampleData k))
                    (entryExpts exampleData (convExponents 1) k) (entryCoefsSP exampleData k)]"
    and one: "\<forall>k<4. \<forall>kind. kindOfCode (shellTypes exampleData ! k) = Some kind \<longrightarrow>
               entryShells exampleData exampleGeometry (convExponents 1) k
               = [Shell kind (entryAtom exampleData k) (exampleGeometry (entryAtom exampleData k))
                    (entryExpts exampleData (convExponents 1) k) (entryCoefs exampleData k)]"
    unfolding n upt_4 by blast
  have codes: "shellTypes exampleData ! Suc 0 = - 1"
    "kindOfCode (shellTypes exampleData ! 0) = Some S"
    "kindOfCode (shellTypes exampleData ! 3) = Some P"
    by (simp_all add: exampleData_def kindOfCode_def)
  have parts:
    "entryAtom exampleData 0 = 0" "entryAtom exampleData (Suc 0) = 0" "entryAtom exampleData 3 = 1"
    "entryExpts exampleData (convExponents 1) 0 = [1, 2]"
    "entryExpts exampleData (convExponents 1) (Suc 0) = [3]"
    "entryExpts exampleData (convExponents 1) 3 = [5]"
    "entryCoefs exampleData 0 = [10, 20]" "entryCoefs exampleData (Suc 0) = [30]"
    "entryCoefs exampleData 3 = [50]" "entryCoefsSP exampleData (Suc 0) = [31]"
    by (simp_all add: entryAtom_def entryExpts_def entryCoefs_def entryCoefsSP_def primSlice_def
        primOffset_def exampleData_def convExponents_def)
  have e0: "entryShells exampleData exampleGeometry (convExponents 1) 0
      = [Shell S 0 (Vec 0 0 0) [1, 2] [10, 20]]"
    using one [rule_format, of 0 S] codes(2) by (simp add: parts exampleGeometry_def)
  have e1: "entryShells exampleData exampleGeometry (convExponents 1) (Suc 0)
      = [Shell S 0 (Vec 0 0 0) [3] [30], Shell P 0 (Vec 0 0 0) [3] [31]]"
    using two [rule_format, of "Suc 0"] codes(1) by (simp add: parts exampleGeometry_def)
  have e3: "entryShells exampleData exampleGeometry (convExponents 1) 3
      = [Shell P 1 (Vec 1 0 0) [5] [50]]"
    using one [rule_format, of 3 P] codes(3) by (simp add: parts exampleGeometry_def)
  from r sh show ?thesis by (simp add: e0 e1 e3 exampleData_entries(3))
qed

lemma concat_map_filter_nonempty:
  "(\<And>x. x \<in> set xs \<Longrightarrow> \<not> keep x \<Longrightarrow> f x = []) \<Longrightarrow> concat (map f xs) = concat (map f (filter keep xs))"
  by (induction xs) auto

text \<open>
  C6. During construction a raw shell whose type code is outside \<open>-4, \<dots>, 4\<close> adds no shell
  to the container and has the message printed that names its position and its code. The
  construction goes on: the constructor returns, and the shells of the container are the
  shells of all the entries with a code in \<open>-4, \<dots>, 4\<close>, in order, those after the unknown
  entry included, each built from its own primitives.
\<close>

theorem ShellList_ctor_unknown_type:
  assumes "ShellData_ok sd"
  shows "\<exists>sl out. ShellList_ctor sd geometry b = Some (sl, out)
      \<and> (\<forall>k<length (shellTypes sd). shellTypes sd ! k \<notin> {- 4..4} \<longrightarrow>
            entryShells sd geometry (convExponents b) k = []
            \<and> UnknownShellType (of_nat k) (shellTypes sd ! k) \<in> set out)
      \<and> shells sl = concat (map (entryShells sd geometry (convExponents b))
                        (filter (\<lambda>k. shellTypes sd ! k \<in> {- 4..4}) [0..<length (shellTypes sd)]))"
proof -
  have none: "entryShells sd geometry conv k = []" if "shellTypes sd ! k \<notin> {- 4..4}" for k conv
    using that by (auto simp: entryShells_def shellsOfType_def)
  have msg: "entryMessages sd k = [UnknownShellType (of_nat k) (shellTypes sd ! k)]"
    if "shellTypes sd ! k \<notin> {- 4..4}" for k
    using that by (simp add: entryMessages_def)
  have flt: "concat (map (entryShells sd geometry (convExponents b)) [0..<length (shellTypes sd)])
      = concat (map (entryShells sd geometry (convExponents b))
          (filter (\<lambda>k. shellTypes sd ! k \<in> {- 4..4}) [0..<length (shellTypes sd)]))"
    by (rule concat_map_filter_nonempty) (rule none)
  from ShellList_ctor_shells [OF assms, of geometry b]
  obtain sl out where r: "ShellList_ctor sd geometry b = Some (sl, out)"
    and sh: "shells sl = concat (map (entryShells sd geometry (convExponents b)) [0..<length (shellTypes sd)])"
    and ms: "\<forall>k<length (shellTypes sd). set (entryMessages sd k) \<subseteq> set out"
    by blast
  have "UnknownShellType (of_nat k) (shellTypes sd ! k) \<in> set out"
    if "k < length (shellTypes sd)" "shellTypes sd ! k \<notin> {- 4..4}" for k
    using ms that msg [OF that(2)] by auto
  with r sh none show ?thesis unfolding flt by blast
qed

theorem ShellList_ctor_unknown_type_witness:
  "\<exists>sl out. ShellList_ctor exampleData exampleGeometry 1 = Some (sl, out)
      \<and> UnknownShellType 2 5 \<in> set out
      \<and> shells sl = [Shell S 0 (Vec 0 0 0) [1, 2] [10, 20],
                     Shell S 0 (Vec 0 0 0) [3] [30], Shell P 0 (Vec 0 0 0) [3] [31],
                     Shell P 1 (Vec 1 0 0) [5] [50]]"
proof -
  have n: "length (shellTypes exampleData) = 4" by (simp add: exampleData_def)
  have t: "shellTypes exampleData ! 2 = 5" "(2 :: nat) < 4" "(5 :: int) \<notin> {- 4..4}"
    by (simp_all add: exampleData_def)
  have f: "filter (\<lambda>k. shellTypes exampleData ! k \<in> {- 4..4}) [0, Suc 0, 2, 3] = [0, Suc 0, 3]"
    by (simp add: exampleData_def)
  from ShellList_ctor_unknown_type [OF exampleData_ok, of exampleGeometry 1]
  obtain sl out where r: "ShellList_ctor exampleData exampleGeometry 1 = Some (sl, out)"
    and u: "\<forall>k<4. shellTypes exampleData ! k \<notin> {- 4..4} \<longrightarrow>
            entryShells exampleData exampleGeometry (convExponents 1) k = []
            \<and> UnknownShellType (of_nat k) (shellTypes exampleData ! k) \<in> set out"
    and sh: "shells sl = concat (map (entryShells exampleData exampleGeometry (convExponents 1))
        [0, Suc 0, 3])"
    unfolding n upt_4 f by blast
  from u t have "UnknownShellType (of_nat 2) 5 \<in> set out" by metis
  then have "UnknownShellType 2 5 \<in> set out" by simp
  with r sh show ?thesis by (auto simp: exampleData_entries)
qed

lemma resize_overlap:
  "resize (sl\<lparr>m_overlapMatrix := ov\<rparr>) = ((fst (resize sl))\<lparr>m_overlapMatrix := ov\<rparr>, snd (resize sl))"
  by (simp add: resize_def Let_def nBasis_def shellAtomOffsets_def basisAtomOffsets_def)

lemma nBasis_resize: "nBasis (fst (resize sl)) = nBasis sl"
  by (simp add: nBasis_def resize_shells)

lemma ShellData_ok_overlap [simp]: "ShellData_ok (sd\<lparr>overlapMatrix := ov\<rparr>) = ShellData_ok sd"
  by (simp add: ShellData_ok_def primOffset_def)

lemma entry_overlap [simp]:
  "entryShells (sd\<lparr>overlapMatrix := ov\<rparr>) = entryShells sd"
  "entryMessages (sd\<lparr>overlapMatrix := ov\<rparr>) = entryMessages sd"
  by (simp_all add: fun_eq_iff entryShells_def entryMessages_def entryAtom_def entryExpts_def
      entryCoefs_def entryCoefsSP_def primSlice_def primOffset_def)

lemma usize_triangle:
  fixes n :: unsigned
  assumes "QList_ok ov" and "unat n < 2 ^ 16"
  shows "usize ov = (n + 1) * n div 2 \<longleftrightarrow> length ov = triangle (unat n)"
proof -
  have "(unat n + 1) * unat n \<le> 2 ^ 16 * (2 ^ 16 - 1)"
    using assms(2) by (intro mult_le_mono) simp_all
  then have m: "(unat n + 1) * unat n < 2 ^ 32" by simp
  have n1: "unat (n + 1) = unat n + 1" using assms(2) by (simp add: unat_word_ariths)
  have "unat ((n + 1) * n) = (unat (n + 1) * unat n) mod 2 ^ 32"
    by (simp add: unat_word_ariths)
  also have "\<dots> = (unat n + 1) * unat n" unfolding n1 using m by (rule mod_less)
  finally have "unat ((n + 1) * n) = (unat n + 1) * unat n" .
  then have "unat ((n + 1) * n div 2) = triangle (unat n)"
    by (simp add: unat_div triangle_def mult.commute)
  then show ?thesis using unat_usize [OF assms(1)] by (metis word_unat_eq_iff)
qed

text \<open>
  What the constructor does with the overlap matrix of the record. After the shells are
  built the matrix is retained when the number of its elements equals \<^verbatim>\<open>(n+1)*n/2\<close> as the
  code computes it, in \<^verbatim>\<open>unsigned\<close>, for the basis count \<open>n\<close> of the shells built. With any
  other size it is dropped: the constructor returns all the same, prints what it prints
  otherwise, and the container is the one built without an overlap matrix. For fewer
  than \<open>2 ^ 16\<close> basis functions the product does not wrap around, and the size compared
  with is the size of the packed triangle.
\<close>

lemma ShellList_ctor_overlap_result:
  assumes "ShellData_ok sd"
  shows "\<exists>sl out. m_overlapMatrix sl = []
      \<and> (\<forall>ov. ShellList_ctor (sd\<lparr>overlapMatrix := ov\<rparr>) geometry b
             = Some (sl\<lparr>m_overlapMatrix :=
                          if usize ov = (nBasis sl + 1) * nBasis sl div 2 then ov else []\<rparr>, out))
      \<and> (\<forall>ov :: double list. QList_ok ov \<and> unat (nBasis sl) < 2 ^ 16 \<longrightarrow>
             (usize ov = (nBasis sl + 1) * nBasis sl div 2 \<longleftrightarrow> length ov = triangle (unat (nBasis sl))))"
proof -
  define shs where
    "shs = concat (map (entryShells sd geometry (convExponents b)) [0..<length (shellTypes sd)])"
  define msgs where "msgs = concat (map (entryMessages sd) [0..<length (shellTypes sd)])"
  let ?sl = "fst (resize (emptyBuffers shs))"
  let ?out = "msgs @ snd (resize (emptyBuffers shs))"
  have e: "m_overlapMatrix ?sl = []" by (simp add: resize_def Let_def emptyBuffers_def)
  have n: "nBasis ?sl = nBasis (emptyBuffers shs)" by (rule nBasis_resize)
  have same: "?sl\<lparr>m_overlapMatrix := []\<rparr> = ?sl" using e by simp
  have r: "ShellList_ctor (sd\<lparr>overlapMatrix := ov\<rparr>) geometry b
      = Some (?sl\<lparr>m_overlapMatrix := if usize ov = (nBasis ?sl + 1) * nBasis ?sl div 2 then ov else []\<rparr>,
              ?out)" for ov
  proof -
    have ok: "ShellData_ok (sd\<lparr>overlapMatrix := ov\<rparr>)" using assms by simp
    show ?thesis
      unfolding ShellList_ctor_result [OF ok] n
      by (simp add: Let_def shs_def [symmetric] msgs_def [symmetric] setOverlapMatrix_def
          resize_overlap same)
  qed
  have a: "usize ov = (nBasis ?sl + 1) * nBasis ?sl div 2 \<longleftrightarrow> length ov = triangle (unat (nBasis ?sl))"
    if "QList_ok ov \<and> unat (nBasis ?sl) < 2 ^ 16" for ov :: "double list"
    using that by (intro usize_triangle) simp_all
  from e r a show ?thesis by blast
qed

text \<open>
  The record of four raw shells has eight basis functions: its overlap matrix of 36
  elements is retained, one of 35 elements is dropped.
\<close>

lemma ShellList_ctor_overlap_example:
  "\<exists>sl out. ShellList_ctor exampleData exampleGeometry 1
        = Some (sl\<lparr>m_overlapMatrix := replicate 36 1\<rparr>, out)
      \<and> ShellList_ctor (exampleData\<lparr>overlapMatrix := replicate 35 1\<rparr>) exampleGeometry 1
        = Some (sl\<lparr>m_overlapMatrix := []\<rparr>, out)
      \<and> nBasis sl = 8 \<and> triangle (unat (nBasis sl)) = 36"
proof -
  from ShellList_ctor_overlap_result [OF exampleData_ok, of exampleGeometry 1]
  obtain sl out where
    r: "\<forall>ov. ShellList_ctor (exampleData\<lparr>overlapMatrix := ov\<rparr>) exampleGeometry 1
           = Some (sl\<lparr>m_overlapMatrix :=
                        if usize ov = (nBasis sl + 1) * nBasis sl div 2 then ov else []\<rparr>, out)"
    and a: "\<forall>ov :: double list. QList_ok ov \<and> unat (nBasis sl) < 2 ^ 16 \<longrightarrow>
             (usize ov = (nBasis sl + 1) * nBasis sl div 2 \<longleftrightarrow> length ov = triangle (unat (nBasis sl)))"
    by blast
  from exampleData_ctor
  obtain sl' out' where r': "ShellList_ctor exampleData exampleGeometry 1 = Some (sl', out')"
    and sh: "shells sl' = [Shell S 0 (Vec 0 0 0) [1, 2] [10, 20],
                     Shell S 0 (Vec 0 0 0) [3] [30], Shell P 0 (Vec 0 0 0) [3] [31],
                     Shell P 1 (Vec 1 0 0) [5] [50]]"
    by blast
  have self: "exampleData\<lparr>overlapMatrix := overlapMatrix exampleData\<rparr> = exampleData" by simp
  from r [rule_format, of "overlapMatrix exampleData"] r'
  have "shells sl = shells sl'" unfolding self by auto
  then have n: "nBasis sl = 8" by (simp add: nBasis_def sh Shell_nBasis_def)
  have o: "overlapMatrix exampleData = replicate 36 1" by (simp add: exampleData_def)
  have "QList_ok (replicate 36 (1 :: real)) \<and> unat (nBasis sl) < 2 ^ 16"
    by (simp add: QList_ok_def n)
  with a have "usize (replicate 36 (1 :: real)) = (nBasis sl + 1) * nBasis sl div 2
      \<longleftrightarrow> length (replicate 36 (1 :: real)) = triangle (unat (nBasis sl))"
    by blast
  then have tr: "triangle (unat (nBasis sl)) = 36" by (simp add: n usize_def)
  from r [rule_format, of "replicate 36 1"] r [rule_format, of "replicate 35 1"]
  have "ShellList_ctor exampleData exampleGeometry 1
        = Some (sl\<lparr>m_overlapMatrix := replicate 36 1\<rparr>, out)
      \<and> ShellList_ctor (exampleData\<lparr>overlapMatrix := replicate 35 1\<rparr>) exampleGeometry 1
        = Some (sl\<lparr>m_overlapMatrix := []\<rparr>, out)"
    unfolding n o [symmetric] self by (simp add: usize_def o)
  with n tr show ?thesis by blast
qed

text \<open>
  From \<open>2 ^ 16\<close> basis functions on the product \<^verbatim>\<open>(n+1)*n\<close> wraps around, and no \<^verbatim>\<open>QList\<close>
  holds the \<open>n * (n + 1) / 2\<close> elements of the packed triangle. The record of 4370 G15
  shells has 65550 basis functions.
\<close>

lemma basisCount_concat: "basisCount (concat xss) = sum_list (map basisCount xss)"
  by (induction xss) simp_all

lemma largeData_ok: "ShellData_ok largeData"
  by (simp add: ShellData_ok_def largeData_def QList_ok_def primOffset_def sum_list_replicate)

lemma largeData_entry:
  "k < 4370 \<Longrightarrow> basisCount (entryShells largeData geometry conv k) = 15"
  by (simp add: entryShells_def largeData_def shellsOfType_def Shell_nBasis_def)

lemma largeData_count:
  "basisCount (concat (map (entryShells largeData geometry conv) [0..<length (shellTypes largeData)])) = 65550"
proof -
  have l: "length (shellTypes largeData) = 4370" by (simp add: largeData_def)
  have m: "map (\<lambda>k. basisCount (entryShells largeData geometry conv k)) [0..<4370]
      = map (\<lambda>k. 15) [0..<4370]"
    by (rule map_cong) (simp_all add: largeData_entry)
  have "sum_list (map (\<lambda>k. basisCount (entryShells largeData geometry conv k)) [0..<4370]) = 65550"
    unfolding m by (simp add: sum_list_triv)
  then show ?thesis unfolding l basisCount_concat by (simp add: o_def)
qed

lemma largeData_nBasis:
  "nBasis (emptyBuffers (concat (map (entryShells largeData geometry conv) [0..<length (shellTypes largeData)]))) = 65550"
proof -
  let ?sl = "emptyBuffers (concat (map (entryShells largeData geometry conv) [0..<length (shellTypes largeData)]))"
  have s: "shells ?sl = concat (map (entryShells largeData geometry conv) [0..<length (shellTypes largeData)])"
    by (simp add: emptyBuffers_def)
  have "unat (nBasis ?sl) = basisCount (shells ?sl)"
    by (rule unat_nBasis) (simp add: s largeData_count)
  then have "unat (nBasis ?sl) = unat (65550 :: unsigned)" by (simp add: s largeData_count)
  then show ?thesis by (simp only: word_unat_eq_iff)
qed

text \<open>
  C7. After the shells are built, an overlap matrix supplied with the record is to be
  retained if and only if the number of its elements is \<open>nBasis * (nBasis + 1) / 2\<close>, for
  the basis count of the shells built. The code compares with \<^verbatim>\<open>(n+1)*n/2\<close> computed in
  \<^verbatim>\<open>unsigned\<close>. For the record of 65550 basis functions the packed triangle has 2148434025
  elements and the product wraps around to \<open>2 * 950377\<close>: the constructor returns a
  container of 65550 basis functions that retains the overlap matrix of 950377 elements
  supplied with the record.
\<close>

theorem ShellList_ctor_overlap_overflow:
  "map_option (\<lambda>r. nBasis (fst r)) (ShellList_ctor largeData exampleGeometry 1) = Some 65550
   \<and> map_option (\<lambda>r. m_overlapMatrix (fst r)) (ShellList_ctor largeData exampleGeometry 1)
       = Some (overlapMatrix largeData)
   \<and> length (overlapMatrix largeData) = 950377
   \<and> ((65550 :: unsigned) + 1) * 65550 div 2 = 950377
   \<and> triangle 65550 = 2148434025"
proof -
  define shs where "shs = concat (map (entryShells largeData exampleGeometry (convExponents 1))
      [0..<length (shellTypes largeData)])"
  define sl' where "sl' = setOverlapMatrix (emptyBuffers shs) (overlapMatrix largeData)"
  have n: "nBasis (emptyBuffers shs) = 65550" unfolding shs_def by (rule largeData_nBasis)
  have ov: "overlapMatrix largeData = replicate 950377 1" by (simp add: largeData_def)
  have u: "usize (overlapMatrix largeData) = ((65550 :: unsigned) + 1) * 65550 div 2"
    by (simp add: ov usize_def)
  have r: "ShellList_ctor largeData exampleGeometry 1
      = Some (fst (resize sl'),
              concat (map (entryMessages largeData) [0..<length (shellTypes largeData)])
                @ snd (resize sl'))"
    unfolding ShellList_ctor_result [OF largeData_ok] sl'_def
    by (simp add: Let_def shs_def [symmetric] n u)
  have "nBasis sl' = nBasis (emptyBuffers shs)"
    by (simp add: sl'_def setOverlapMatrix_def nBasis_def)
  then have c1: "nBasis (fst (resize sl')) = 65550" by (simp add: nBasis_resize n)
  have c2: "m_overlapMatrix (fst (resize sl')) = overlapMatrix largeData"
    by (simp add: sl'_def setOverlapMatrix_def resize_overlap)
  have c3: "length (overlapMatrix largeData) = 950377" by (simp add: ov)
  have c4: "((65550 :: unsigned) + 1) * 65550 div 2 = 950377" by simp
  have c5: "triangle 65550 = 2148434025" by (simp add: triangle_def)
  from c1 c2 c3 c4 c5 show ?thesis unfolding r by simp
qed

end
